theory Spec2Isabelle
  imports Complex_Main "HOL-Library.AList" "HOL-Library.Sublist"
begin

section \<open>Python strings\<close>

text \<open>
  Python strings are modelled as \<open>string\<close>; a character stands for a code point below 256.
  \<open>isspace\<close> is Python's \<open>str.isspace\<close> on that range: TAB..CR, FS..US, SPACE, NEL and NBSP.
  These are the characters that \<open>str.strip()\<close> removes from both ends.
\<close>

definition isspace :: "char \<Rightarrow> bool" where
  "isspace c =
     (let n = (of_char c :: nat)
      in (9 \<le> n \<and> n \<le> 13) \<or> (28 \<le> n \<and> n \<le> 32) \<or> n = 133 \<or> n = 160)"

definition lstrip :: "string \<Rightarrow> string" where
  "lstrip s = dropWhile isspace s"

definition rstrip :: "string \<Rightarrow> string" where
  "rstrip s = rev (dropWhile isspace (rev s))"

definition strip :: "string \<Rightarrow> string" where
  "strip s = rstrip (lstrip s)"

text \<open>\<open>s.split(sep)\<close> for a one-character separator: never empty, \<open>"".split("|") == [""]\<close>.\<close>

fun split_on :: "char \<Rightarrow> string \<Rightarrow> string list" where
  "split_on c [] = [[]]"
| "split_on c (x # xs) =
     (if x = c then [] # split_on c xs
      else (case split_on c xs of
              [] \<Rightarrow> [[x]]
            | w # ws \<Rightarrow> (x # w) # ws))"

text \<open>\<open>sep.join(parts)\<close>.\<close>

fun join :: "string \<Rightarrow> string list \<Rightarrow> string" where
  "join sep [] = []"
| "join sep [p] = p"
| "join sep (p # q # ps) = p @ sep @ join sep (q # ps)"

text \<open>\<open>s.startswith(p)\<close> is \<^const>\<open>prefix\<close> \<open>p s\<close>.\<close>

section \<open>Formatting a score\<close>

text \<open>
  Scores are Python floats. They are modelled as reals: every finite float is a real
  number, and \<open>f"{s:.3f}"\<close> prints the decimal with three places nearest to the exact
  value of \<open>s\<close>, ties going to the even neighbour. NaN, the infinities, the negative zero
  and the rounding of the arithmetic that produced \<open>s\<close> are outside the model.
\<close>

definition round_half_even :: "real \<Rightarrow> int" where
  "round_half_even x =
     (let f = \<lfloor>x\<rfloor>; d = x - of_int f
      in if d < 1 / 2 then f
         else if 1 / 2 < d then f + 1
         else if even f then f else f + 1)"

definition digit_char :: "nat \<Rightarrow> char" where
  "digit_char d = ''0123456789'' ! (d mod 10)"

fun str_nat :: "nat \<Rightarrow> string" where
  "str_nat n = (if n < 10 then [digit_char n] else str_nat (n div 10) @ [digit_char n])"

declare str_nat.simps [simp del]

definition fmt3 :: "real \<Rightarrow> string" where
  "fmt3 s =
     (let m = nat (round_half_even (\<bar>s\<bar> * 1000))
      in (if s < 0 then ''-'' else []) @ str_nat (m div 1000) @ ''.'' @
         [digit_char (m div 100), digit_char (m div 10), digit_char m])"

section \<open>CSV rows\<close>

text \<open>
  A row of \<open>csv.DictReader\<close> is a dict from column name to value, in header order; a short
  line leaves its missing columns at \<open>None\<close>. \<open>row_get k row\<close> is \<open>row.get(k) or ""\<close> and
  \<open>row_set k v row\<close> is \<open>row[k] = v\<close>, which keeps the position of an existing key.
\<close>

type_synonym row = "(string \<times> string option) list"

definition row_get :: "string \<Rightarrow> row \<Rightarrow> string" where
  "row_get k row = (case map_of row k of Some (Some v) \<Rightarrow> v | _ \<Rightarrow> [])"

definition row_set :: "string \<Rightarrow> string \<Rightarrow> row \<Rightarrow> row" where
  "row_set k v row = AList.update k (Some v) row"

text \<open>
  The body of the loop of \<open>flush\<close> (enrich\_csv.py, lines 97 to 101): the new value of the
  \<open>reasons\<close> column of a row scored \<open>s\<close>, and the row after the assignment.
\<close>

definition is_score_clause :: "string \<Rightarrow> bool" where
  "is_score_clause p = prefix ''reranker score '' p"

definition new_reasons :: "real \<Rightarrow> row \<Rightarrow> string" where
  "new_reasons s row =
     (let reasons = strip (row_get ''reasons'' row);
          parts = map strip (filter (\<lambda>p. strip p \<noteq> [] \<and> \<not> is_score_clause (strip p))
                              (split_on CHR ''|'' reasons));
          parts = parts @ [''reranker score '' @ fmt3 s]
      in join ''|'' parts)"

definition annotate :: "real \<Rightarrow> row \<Rightarrow> row" where
  "annotate s row = row_set ''reasons'' (new_reasons s row) row"

section \<open>Tensors\<close>

text \<open>
  A tensor of torch is its shape and its elements in row-major order; the elements are
  floats, modelled as reals. Only the operations that the two scoring functions apply to
  the logits are modelled, each with the error torch raises.
\<close>

datatype error =
    AssertionError
  | EngineError string
  | IndexError
  | RuntimeError
  | SystemExit string

record tensor =
  shape :: "nat list"
  data :: "real list"

definition wf_tensor :: "tensor \<Rightarrow> bool" where
  "wf_tensor t \<longleftrightarrow> length (data t) = prod_list (shape t)"

definition dim :: "tensor \<Rightarrow> nat" where
  "dim t = length (shape t)"

text \<open>\<open>t.size(-1)\<close>, used only behind \<open>t.dim() == 2\<close>.\<close>

definition size_last :: "tensor \<Rightarrow> nat" where
  "size_last t = last (shape t)"

text \<open>\<open>t.squeeze(-1)\<close>: the last axis goes when its size is 1.\<close>

definition squeeze_last :: "tensor \<Rightarrow> tensor" where
  "squeeze_last t =
     (if shape t \<noteq> [] \<and> last (shape t) = 1 then t\<lparr>shape := butlast (shape t)\<rparr> else t)"

definition sigmoid :: "real \<Rightarrow> real" where
  "sigmoid x = 1 / (1 + exp (- x))"

definition sigmoid_t :: "tensor \<Rightarrow> tensor" where
  "sigmoid_t t = t\<lparr>data := map sigmoid (data t)\<rparr>"

definition softmax :: "real list \<Rightarrow> real list" where
  "softmax xs = map (\<lambda>x. exp x / sum_list (map exp xs)) xs"

text \<open>The \<open>i\<close>-th block of \<open>n\<close> consecutive elements, and all the blocks of a list.\<close>

definition chunk :: "nat \<Rightarrow> nat \<Rightarrow> 'a list \<Rightarrow> 'a list" where
  "chunk n i xs = take n (drop (i * n) xs)"

definition chunks :: "nat \<Rightarrow> 'a list \<Rightarrow> 'a list list" where
  "chunks n xs = map (\<lambda>i. chunk n i xs) [0..<length xs div n]"

text \<open>\<open>torch.softmax(t, dim=-1)\<close>.\<close>

definition softmax_last :: "tensor \<Rightarrow> tensor" where
  "softmax_last t = t\<lparr>data := concat (map softmax (chunks (last (shape t)) (data t)))\<rparr>"

text \<open>\<open>t[:, k]\<close> on a tensor with two axes.\<close>

definition column :: "nat \<Rightarrow> tensor \<Rightarrow> error + tensor" where
  "column k t =
     (case shape t of
        [b, c] \<Rightarrow>
          if k < c then Inr \<lparr>shape = [b], data = map (\<lambda>i. data t ! (i * c + k)) [0..<b]\<rparr>
          else Inl IndexError
      | _ \<Rightarrow> Inl IndexError)"

text \<open>
  \<open>t.reshape(t.size(0), -1)\<close>: \<open>size(0)\<close> fails without a first axis, and the \<open>-1\<close> cannot
  be inferred when the first axis is empty.
\<close>

definition reshape_rows :: "tensor \<Rightarrow> error + tensor" where
  "reshape_rows t =
     (case shape t of
        [] \<Rightarrow> Inl IndexError
      | b # rest \<Rightarrow>
          if b = 0 then Inl RuntimeError else Inr (t\<lparr>shape := [b, prod_list rest]\<rparr>))"

section \<open>The score engine\<close>

text \<open>
  The tokenizer and the model are black boxes. \<open>tokenizer queries texts max_length\<close> is the
  call with padding, truncation and \<open>return_tensors="pt"\<close>; it returns an encoding or
  raises. A model takes the device the encoding was moved to and the encoding, and returns
  \<open>out.logits\<close> or raises.
\<close>

type_synonym 'enc tokenizer = "string list \<Rightarrow> string list \<Rightarrow> int \<Rightarrow> error + 'enc"

type_synonym 'enc model = "string \<Rightarrow> 'enc \<Rightarrow> error + tensor"

text \<open>Lines 45 to 51 of enrich\_csv.py: from the logits to the list of scores.\<close>

definition normalize :: "tensor \<Rightarrow> error + real list" where
  "normalize logits =
     (if dim logits = 2 \<and> size_last logits = 1 then
        Inr (data (sigmoid_t (squeeze_last logits)))
      else if dim logits = 2 \<and> size_last logits = 2 then
        (case column 1 (softmax_last logits) of
           Inl e \<Rightarrow> Inl e
         | Inr scores \<Rightarrow> Inr (data scores))
      else
        (case reshape_rows logits of
           Inl e \<Rightarrow> Inl e
         | Inr r \<Rightarrow>
             (case column 0 r of
                Inl e \<Rightarrow> Inl e
              | Inr c \<Rightarrow> Inr (data (sigmoid_t c)))))"

text \<open>\<open>score_pairs\<close> of enrich\_csv.py (lines 25 to 51).\<close>

definition score_pairs ::
  "'enc tokenizer \<Rightarrow> 'enc model \<Rightarrow> string \<Rightarrow> string list \<Rightarrow> string list \<Rightarrow> int \<Rightarrow> error + real list"
where
  "score_pairs tokenizer model device queries texts max_length =
     (case tokenizer queries texts max_length of
        Inl e \<Rightarrow> Inl e
      | Inr enc \<Rightarrow>
          (case model device enc of
             Inl e \<Rightarrow> Inl e
           | Inr logits \<Rightarrow> normalize logits))"

section \<open>The service\<close>

text \<open>
  The module-level variables of app.py that the handlers read: \<open>tokenizer\<close> and \<open>model\<close>
  are \<open>None\<close> until \<open>_load\<close> has run.
\<close>

record 'enc app =
  app_tokenizer :: "'enc tokenizer option"
  app_model :: "'enc model option"
  app_device :: string
  MAX_LENGTH :: int

text \<open>Lines 92 to 101 of app.py: from the logits to the list of scores.\<close>

definition app_normalize :: "tensor \<Rightarrow> error + real list" where
  "app_normalize logits =
     (if dim logits = 2 \<and> size_last logits = 1 then
        Inr (data (sigmoid_t (squeeze_last logits)))
      else if dim logits = 2 \<and> size_last logits = 2 then
        (case column 1 (softmax_last logits) of
           Inl e \<Rightarrow> Inl e
         | Inr scores \<Rightarrow> Inr (data scores))
      else
        (case reshape_rows logits of
           Inl e \<Rightarrow> Inl e
         | Inr r \<Rightarrow>
             (case column 0 r of
                Inl e \<Rightarrow> Inl e
              | Inr c \<Rightarrow> Inr (data (sigmoid_t c)))))"

text \<open>\<open>_score_pairs\<close> of app.py (lines 71 to 101).\<close>

definition app_score_pairs :: "'enc app \<Rightarrow> string list \<Rightarrow> string list \<Rightarrow> error + real list" where
  "app_score_pairs app queries texts =
     (case (app_tokenizer app, app_model app) of
        (Some tokenizer, Some model) \<Rightarrow>
          (case tokenizer queries texts (MAX_LENGTH app) of
             Inl e \<Rightarrow> Inl e
           | Inr enc \<Rightarrow>
               (case model (app_device app) enc of
                  Inl e \<Rightarrow> Inl e
                | Inr logits \<Rightarrow> app_normalize logits))
      | _ \<Rightarrow> Inl AssertionError)"

record batch_pair =
  query :: string
  text_field :: string
  id_field :: "string option"

text \<open>
  \<open>batch_score\<close> of app.py (lines 110 to 120). The result is the list under \<open>"scores"\<close>, each
  entry the pair of its \<open>"id"\<close> and \<open>"score"\<close>, together with a ghost value: the arguments
  of every call of \<open>_score_pairs\<close> the handler made.
\<close>

definition batch_score ::
  "'enc app \<Rightarrow> batch_pair list \<Rightarrow> (error + (string option \<times> real) list) \<times> (string list \<times> string list) list"
where
  "batch_score app pairs =
     (if pairs = [] then (Inr [], [])
      else
        let queries = map query pairs;
            texts = map text_field pairs
        in (case app_score_pairs app queries texts of
              Inl e \<Rightarrow> (Inl e, [(queries, texts)])
            | Inr scores \<Rightarrow>
                (Inr (map (\<lambda>(pair, s). (id_field pair, s)) (zip pairs scores)),
                 [(queries, texts)])))"

section \<open>The enrichment job\<close>

text \<open>
  The arguments and local variables of \<open>main\<close> that stay fixed during a run: the options
  of the command line, the tokenizer and the model it loaded, the device it picked.
\<close>

record 'enc env =
  tokenizer :: "'enc tokenizer"
  model :: "'enc model"
  device :: string
  batch_size :: int
  max_length :: int
  max_rows :: int

text \<open>
  The variables of \<open>main\<close> that its loop and \<open>flush\<close> change. \<open>written\<close> is the output file:
  the rows passed to \<open>writer.writerow\<close>, in the order of the calls. \<open>calls\<close> is a ghost
  variable: the arguments of every call of \<open>score_pairs\<close> that returned so far.
\<close>

record job =
  written :: "row list"
  buf_rows :: "row list"
  buf_q :: "string list"
  buf_t :: "string list"
  total :: int
  calls :: "(string list \<times> string list) list"

definition job0 :: job where
  "job0 = \<lparr>written = [], buf_rows = [], buf_q = [], buf_t = [], total = 0, calls = []\<rparr>"

text \<open>
  \<open>flush\<close> (lines 91 to 106). \<open>zip\<close> stops at the shorter of the buffer and the scores.
\<close>

definition flush :: "'enc env \<Rightarrow> job \<Rightarrow> error + job" where
  "flush e j =
     (if buf_rows j = [] then Inr j
      else
        (case score_pairs (tokenizer e) (model e) (device e) (buf_q j) (buf_t j) (max_length e) of
           Inl err \<Rightarrow> Inl err
         | Inr scores \<Rightarrow>
             Inr (j\<lparr>written := written j @ map (\<lambda>(row, s). annotate s row) (zip (buf_rows j) scores),
                    total := total j + int (length (zip (buf_rows j) scores)),
                    buf_rows := [], buf_q := [], buf_t := [],
                    calls := calls j @ [(buf_q j, buf_t j)]\<rparr>)))"

text \<open>The loop over the reader (lines 108 to 121); \<open>break\<close> leaves it with the job as it is.\<close>

fun loop :: "'enc env \<Rightarrow> row list \<Rightarrow> job \<Rightarrow> error + job" where
  "loop e [] j = Inr j"
| "loop e (row # rest) j =
     (if max_rows e \<noteq> 0 \<and> max_rows e \<le> total j then Inr j
      else
        let q = strip (row_get ''gameName'' row);
            t = strip (row_get ''candidateTitle'' row)
        in if q = [] \<or> t = [] then
             loop e rest (j\<lparr>written := written j @ [row], total := total j + 1\<rparr>)
           else
             let j' = j\<lparr>buf_rows := buf_rows j @ [row], buf_q := buf_q j @ [q],
                        buf_t := buf_t j @ [t]\<rparr>
             in if batch_size e \<le> int (length (buf_rows j')) then
                  (case flush e j' of
                     Inl err \<Rightarrow> Inl err
                   | Inr j'' \<Rightarrow> loop e rest j'')
                else loop e rest j')"

text \<open>
  \<open>main\<close> from the header checks on (lines 77 to 123). The input file is the header the
  reader found, if any, and the rows it yields. The header line written first is not part
  of \<open>written\<close>.
\<close>

definition main :: "'enc env \<Rightarrow> string list option \<Rightarrow> row list \<Rightarrow> error + job" where
  "main e fieldnames rows =
     (case fieldnames of
        None \<Rightarrow> Inl (SystemExit ''input csv missing header'')
      | Some fs \<Rightarrow>
          if ''reasons'' \<notin> set fs then Inl (SystemExit ''input csv missing reasons column'')
          else (case loop e rows job0 of
                  Inl err \<Rightarrow> Inl err
                | Inr j \<Rightarrow> flush e j))"

text \<open>A row the loop buffers for scoring, as opposed to one it writes through.\<close>

definition scorable :: "row \<Rightarrow> bool" where
  "scorable row \<longleftrightarrow>
     strip (row_get ''gameName'' row) \<noteq> [] \<and> strip (row_get ''candidateTitle'' row) \<noteq> []"

section \<open>Notions the statements use\<close>

text \<open>
  The clauses of an annotation, as the specification reads it: the pieces between the \<open>|\<close>,
  each trimmed. \<open>score_clause s\<close> is the clause for the score \<open>s\<close>, \<open>score_clauses a\<close> are the
  clauses of \<open>a\<close> that match the pattern of a score clause.
\<close>

definition clauses :: "string \<Rightarrow> string list" where
  "clauses a = map strip (split_on CHR ''|'' a)"

definition score_clause :: "real \<Rightarrow> string" where
  "score_clause s = ''reranker score '' @ fmt3 s"

definition score_clauses :: "string \<Rightarrow> string list" where
  "score_clauses a = filter is_score_clause (clauses a)"

text \<open>
  The rewrite rule in the words of the specification: split on \<open>|\<close>, trim each clause, drop
  the empty clauses and the score clauses, append the new clause, join with \<open>|\<close>.
\<close>

definition spec_rewrite :: "real \<Rightarrow> string \<Rightarrow> string" where
  "spec_rewrite s a =
     join ''|'' (filter (\<lambda>p. p \<noteq> [] \<and> \<not> is_score_clause p) (clauses a) @ [score_clause s])"

text \<open>The characters a formatted score is made of.\<close>

definition is_num_char :: "char \<Rightarrow> bool" where
  "is_num_char c \<longleftrightarrow> c \<in> set ''-.0123456789''"

text \<open>
  The output of the model for the \<open>i\<close>-th pair, flattened to a vector: the \<open>i\<close>-th block of
  the elements, its length the product of the sizes of the axes after the first.
\<close>

definition logit_row :: "tensor \<Rightarrow> nat \<Rightarrow> real list" where
  "logit_row t i = chunk (prod_list (tl (shape t))) i (data t)"

text \<open>
  The score of one pair from its row of logits, as the three cases of the dispatch give it
  on a head with \<open>k\<close> labels (logits of shape \<open>(batch, k)\<close>).
\<close>

definition row_score :: "real list \<Rightarrow> real" where
  "row_score xs = (if length xs = 2 then softmax xs ! 1 else sigmoid (hd xs))"

text \<open>The query and the text the loop takes from a row.\<close>

definition query_of :: "row \<Rightarrow> string" where
  "query_of row = strip (row_get ''gameName'' row)"

definition text_of :: "row \<Rightarrow> string" where
  "text_of row = strip (row_get ''candidateTitle'' row)"

text \<open>
  The contract of the score engine that the job relies on: for lists of equal length it
  returns, without raising, one score per pair.
\<close>

definition engine_ok :: "'enc env \<Rightarrow> bool" where
  "engine_ok e \<longleftrightarrow>
     (\<forall>qs ts. length qs = length ts \<longrightarrow>
        (\<exists>ss. score_pairs (tokenizer e) (model e) (device e) qs ts (max_length e) = Inr ss \<and>
              length ss = length qs))"

text \<open>The scores the engine returns for a recorded call, and for all the calls of a job.\<close>

definition returned :: "'enc env \<Rightarrow> string list \<times> string list \<Rightarrow> real list" where
  "returned e c =
     (case score_pairs (tokenizer e) (model e) (device e) (fst c) (snd c) (max_length e) of
        Inl err \<Rightarrow> []
      | Inr ss \<Rightarrow> ss)"

definition scores_of :: "'enc env \<Rightarrow> job \<Rightarrow> real list" where
  "scores_of e j = concat (map (returned e) (calls j))"

text \<open>The buffers hold scorable rows and their queries and texts, in step.\<close>

definition buf_ok :: "job \<Rightarrow> bool" where
  "buf_ok j \<longleftrightarrow>
     buf_q j = map query_of (buf_rows j) \<and> buf_t j = map text_of (buf_rows j) \<and>
     list_all scorable (buf_rows j)"

text \<open>
  The state of a job after the loop has consumed the rows \<open>P\<close>: the rows written through
  are the rows of \<open>P\<close> that are not scorable; the scorable rows of \<open>P\<close> are the rows \<open>D\<close>
  already flushed followed by the buffer; the calls of the engine carried the queries and
  texts of \<open>D\<close>, and the scorable rows of the output are the rows of \<open>D\<close>, each annotated
  with the score returned for it.
\<close>

definition consumed :: "'enc env \<Rightarrow> row list \<Rightarrow> job \<Rightarrow> bool" where
  "consumed e P j \<longleftrightarrow>
     buf_ok j \<and> total j = int (length (written j)) \<and>
     filter (\<lambda>r. \<not> scorable r) (written j) = filter (\<lambda>r. \<not> scorable r) P \<and>
     (\<exists>D. filter scorable P = D @ buf_rows j \<and>
          length (scores_of e j) = length D \<and>
          filter scorable (written j) = map (\<lambda>(r, s). annotate s r) (zip D (scores_of e j)) \<and>
          concat (map fst (calls j)) = map query_of D \<and>
          concat (map snd (calls j)) = map text_of D)"

text \<open>
  \<open>rescored r w\<close>: the output row \<open>w\<close> is the input row \<open>r\<close> with its \<open>reasons\<close> column
  assigned the rewritten annotation for some score. \<open>same_but_reasons r w\<close>: the two rows
  have the same columns in the same order and agree outside \<open>reasons\<close>.
\<close>

definition rescored :: "row \<Rightarrow> row \<Rightarrow> bool" where
  "rescored r w \<longleftrightarrow>
     (\<exists>s. w = row_set ''reasons'' (spec_rewrite s (row_get ''reasons'' r)) r)"

definition same_but_reasons :: "row \<Rightarrow> row \<Rightarrow> bool" where
  "same_but_reasons r w \<longleftrightarrow>
     map fst w = map fst r \<and> AList.delete ''reasons'' w = AList.delete ''reasons'' r"

text \<open>What the job does to one row it consumes: a scorable row is rescored, another is kept.\<close>

definition row_out :: "row \<Rightarrow> row \<Rightarrow> bool" where
  "row_out r w \<longleftrightarrow> (if scorable r then rescored r w else w = r)"

text \<open>
  The order of the output in terms of the input. The rows consumed are cut right after
  every scorable row that fills the batch (\<open>k\<close> counts the scorable rows of the piece so
  far); each piece is written with its rows that are not scorable first and its scorable
  rows after them.
\<close>

fun cut :: "int \<Rightarrow> nat \<Rightarrow> row list \<Rightarrow> row list list" where
  "cut B k [] = [[]]"
| "cut B k (r # rs) =
     (if scorable r \<and> B \<le> int k + 1 then [r] # cut B 0 rs
      else (case cut B (if scorable r then Suc k else k) rs of
              [] \<Rightarrow> [[r]]
            | p # ps \<Rightarrow> (r # p) # ps))"

definition piece_order :: "row list \<Rightarrow> row list" where
  "piece_order p = filter (\<lambda>r. \<not> scorable r) p @ filter scorable p"

definition expected_order :: "int \<Rightarrow> row list \<Rightarrow> row list" where
  "expected_order B rows = concat (map piece_order (cut B 0 rows))"

text \<open>
  The same order, told from a state of the loop: the order in which the rows of the buffer
  and the rows still to read reach the output.
\<close>

fun pending_order :: "int \<Rightarrow> row list \<Rightarrow> row list \<Rightarrow> row list" where
  "pending_order B buf [] = buf"
| "pending_order B buf (r # rs) =
     (if scorable r then
        (if B \<le> int (length buf) + 1 then buf @ [r] @ pending_order B [] rs
         else pending_order B (buf @ [r]) rs)
      else r # pending_order B buf rs)"

section \<open>Concrete inputs\<close>

text \<open>
  A stand-in for the tokenizer and the model: the encoding of a batch is the list of its
  pairs, and the model has a single-logit head that answers 0 for every pair, so every
  score is \<open>sigmoid 0 = 1/2\<close>.
\<close>

definition ex_tokenizer :: "(string \<times> string) list tokenizer" where
  "ex_tokenizer queries texts len = Inr (zip queries texts)"

definition ex_model :: "(string \<times> string) list model" where
  "ex_model dev enc = Inr \<lparr>shape = [length enc, 1], data = map (\<lambda>_. 0) enc\<rparr>"

definition ex_app :: "(string \<times> string) list app" where
  "ex_app = \<lparr>app_tokenizer = Some ex_tokenizer, app_model = Some ex_model,
             app_device = ''cpu'', MAX_LENGTH = 256\<rparr>"

definition ex_env :: "int \<Rightarrow> int \<Rightarrow> (string \<times> string) list env" where
  "ex_env b m = \<lparr>tokenizer = ex_tokenizer, model = ex_model, device = ''cpu'',
                 batch_size = b, max_length = 256, max_rows = m\<rparr>"

text \<open>
  Logits that tell the branches of the dispatch apart: \<open>sigmoid 0 = 1/2\<close> and
  \<open>sigmoid (ln 3) = 3/4\<close>, and the softmax of \<open>[0, ln 3]\<close> is \<open>[1/4, 3/4]\<close>.
\<close>

definition ex_logits1 :: tensor where
  "ex_logits1 = \<lparr>shape = [2, 1], data = [0, ln 3]\<rparr>"

definition ex_logits2 :: tensor where
  "ex_logits2 = \<lparr>shape = [1, 2], data = [0, ln 3]\<rparr>"

definition ex_logits3 :: tensor where
  "ex_logits3 = \<lparr>shape = [1, 3], data = [ln 3, 0, 0]\<rparr>"

definition ex_logits4 :: tensor where
  "ex_logits4 = \<lparr>shape = [1, 1, 2], data = [0, ln 3]\<rparr>"

definition ex_logits5 :: tensor where
  "ex_logits5 = \<lparr>shape = [], data = [0]\<rparr>"

definition ex_logits6 :: tensor where
  "ex_logits6 = \<lparr>shape = [0, 3], data = []\<rparr>"

definition ex_pairs :: "batch_pair list" where
  "ex_pairs = [\<lparr>query = ''chess'', text_field = ''Chess Online'', id_field = Some ''a''\<rparr>,
               \<lparr>query = ''go'', text_field = ''Go Master'', id_field = None\<rparr>]"

text \<open>Rows of a CSV file with the header \<open>gameName,candidateTitle,reasons\<close>.\<close>

definition ex_header :: "string list" where
  "ex_header = [''gameName'', ''candidateTitle'', ''reasons'']"

definition ex_row :: "string \<Rightarrow> string \<Rightarrow> string \<Rightarrow> row" where
  "ex_row g c r = [(''gameName'', Some g), (''candidateTitle'', Some c), (''reasons'', Some r)]"

definition ex_chess :: row where
  "ex_chess = ex_row ''Chess'' ''Chess Online'' ''title match''"

definition ex_go :: row where
  "ex_go = ex_row ''Go'' ''Go Master'' []"

definition ex_blank :: row where
  "ex_blank = ex_row '' '' ''Checkers'' ''manual''"

text \<open>
  A single-logit model that answers the logit \<open>x\<close> for every pair, so that every score is
  \<open>sigmoid x\<close>; with \<open>x = ln (203 / 47)\<close> the score is 0.812, with \<open>x = ln 9\<close> it is 0.9.
\<close>

definition ex_model_logit :: "real \<Rightarrow> (string \<times> string) list model" where
  "ex_model_logit x dev enc = Inr \<lparr>shape = [length enc, 1], data = map (\<lambda>_. x) enc\<rparr>"

definition ex_env_logit :: "real \<Rightarrow> int \<Rightarrow> int \<Rightarrow> (string \<times> string) list env" where
  "ex_env_logit x b m = \<lparr>tokenizer = ex_tokenizer, model = ex_model_logit x, device = ''cpu'',
                         batch_size = b, max_length = 256, max_rows = m\<rparr>"

section \<open>Splitting, joining and trimming\<close>

lemma split_on_nonempty: "split_on c xs \<noteq> []"
  by (induction xs) (auto split: list.splits)

lemma split_on_no_sep: "p \<in> set (split_on c xs) \<Longrightarrow> c \<notin> set p"
  by (induction xs arbitrary: p) (auto split: list.splits if_splits)

lemma split_on_no_sep_id: "c \<notin> set p \<Longrightarrow> split_on c p = [p]"
  by (induction p) auto

lemma split_on_append_sep:
  "c \<notin> set p \<Longrightarrow> split_on c (p @ c # xs) = p # split_on c xs"
  by (induction p) auto

lemma split_on_join:
  "ps \<noteq> [] \<Longrightarrow> \<forall>p \<in> set ps. c \<notin> set p \<Longrightarrow> split_on c (join [c] ps) = ps"
proof (induction "[c]" ps rule: join.induct)
  case 1
  then show ?case by simp
next
  case (2 p)
  then show ?case by (simp add: split_on_no_sep_id)
next
  case (3 p q ps)
  then show ?case by (simp add: split_on_append_sep)
qed

lemma split_on_snoc:
  "x \<noteq> c \<Longrightarrow> split_on c (xs @ [x]) = butlast (split_on c xs) @ [last (split_on c xs) @ [x]]"
proof (induction xs)
  case Nil
  then show ?case by simp
next
  case (Cons y ys)
  then show ?case
    by (cases "split_on c ys") (auto simp: split_on_nonempty)
qed

lemma rstrip_snoc: "rstrip (xs @ [x]) = (if isspace x then rstrip xs else xs @ [x])"
  by (simp add: rstrip_def)

lemma lstrip_Cons: "lstrip (x # xs) = (if isspace x then lstrip xs else x # xs)"
  by (simp add: lstrip_def)

lemma strip_Cons_space: "isspace x \<Longrightarrow> strip (x # xs) = strip xs"
  by (simp add: strip_def lstrip_Cons)

lemma strip_snoc_space: "isspace x \<Longrightarrow> strip (xs @ [x]) = strip xs"
proof (induction xs)
  case Nil
  then show ?case by (simp add: strip_def lstrip_def rstrip_def)
next
  case (Cons y ys)
  show ?case
  proof (cases "isspace y")
    case True
    then show ?thesis using Cons by (simp add: strip_Cons_space)
  next
    case False
    then have "lstrip ((y # ys) @ [x]) = (y # ys) @ [x]" and "lstrip (y # ys) = y # ys"
      by (simp_all add: lstrip_Cons)
    then show ?thesis using Cons.prems
      unfolding strip_def by (simp only: rstrip_snoc if_True)
  qed
qed

lemma map_strip_split_rstrip:
  "\<not> isspace c \<Longrightarrow> map strip (split_on c (rstrip xs)) = map strip (split_on c xs)"
proof (induction xs rule: rev_induct)
  case Nil
  then show ?case by (simp add: rstrip_def)
next
  case (snoc x xs)
  show ?case
  proof (cases "isspace x")
    case True
    with snoc.prems have "x \<noteq> c" by auto
    have ne: "split_on c xs \<noteq> []" by (rule split_on_nonempty)
    have "map strip (split_on c (xs @ [x])) =
          map strip (butlast (split_on c xs)) @ [strip (last (split_on c xs) @ [x])]"
      using \<open>x \<noteq> c\<close> by (simp add: split_on_snoc)
    also have "\<dots> = map strip (butlast (split_on c xs)) @ [strip (last (split_on c xs))]"
      using True by (simp add: strip_snoc_space)
    also have "\<dots> = map strip (butlast (split_on c xs) @ [last (split_on c xs)])"
      by simp
    also have "\<dots> = map strip (split_on c xs)"
      using ne by simp
    finally show ?thesis using True snoc by (simp add: rstrip_snoc)
  next
    case False
    then show ?thesis by (simp add: rstrip_snoc)
  qed
qed

lemma map_strip_split_lstrip:
  "\<not> isspace c \<Longrightarrow> map strip (split_on c (lstrip xs)) = map strip (split_on c xs)"
proof (induction xs)
  case Nil
  then show ?case by (simp add: lstrip_def)
next
  case (Cons x xs)
  show ?case
  proof (cases "isspace x")
    case True
    with Cons.prems have "x \<noteq> c" by auto
    obtain w ws where w: "split_on c xs = w # ws"
      using split_on_nonempty [of c xs] by (cases "split_on c xs") auto
    have "map strip (split_on c (x # xs)) = strip (x # w) # map strip ws"
      using \<open>x \<noteq> c\<close> w by simp
    also have "\<dots> = map strip (split_on c xs)"
      using True w by (simp add: strip_Cons_space)
    finally show ?thesis using True Cons by (simp add: lstrip_Cons)
  next
    case False
    then show ?thesis by (simp add: lstrip_Cons)
  qed
qed

lemma map_strip_split_strip:
  "\<not> isspace c \<Longrightarrow> map strip (split_on c (strip xs)) = map strip (split_on c xs)"
  by (simp add: strip_def map_strip_split_rstrip map_strip_split_lstrip)

lemma set_strip: "set (strip s) \<subseteq> set s"
proof -
  have "set (rstrip t) \<subseteq> set t" for t
    unfolding rstrip_def using set_dropWhileD [of _ isspace "rev t"] by auto
  moreover have "set (lstrip t) \<subseteq> set t" for t
    unfolding lstrip_def using set_dropWhileD [of _ isspace t] by auto
  ultimately show ?thesis unfolding strip_def by blast
qed

lemma strip_Nil: "strip [] = []"
  by (simp add: strip_def lstrip_def rstrip_def)

lemma rstrip_clean: "s \<noteq> [] \<Longrightarrow> \<not> isspace (last s) \<Longrightarrow> rstrip s = s"
  by (cases s rule: rev_cases) (simp_all add: rstrip_snoc)

lemma strip_clean: "s \<noteq> [] \<Longrightarrow> \<not> isspace (hd s) \<Longrightarrow> \<not> isspace (last s) \<Longrightarrow> strip s = s"
proof -
  assume a: "s \<noteq> []" "\<not> isspace (hd s)" "\<not> isspace (last s)"
  then have "lstrip s = s" by (cases s) (simp_all add: lstrip_Cons)
  with a show ?thesis by (simp add: strip_def rstrip_clean)
qed

lemma lstrip_hd: "lstrip s \<noteq> [] \<Longrightarrow> \<not> isspace (hd (lstrip s))"
  unfolding lstrip_def by (simp add: hd_dropWhile)

lemma rstrip_last: "rstrip s \<noteq> [] \<Longrightarrow> \<not> isspace (last (rstrip s))"
  unfolding rstrip_def by (simp add: last_rev hd_dropWhile)

lemma rstrip_hd: "s \<noteq> [] \<Longrightarrow> \<not> isspace (hd s) \<Longrightarrow> rstrip s \<noteq> [] \<and> hd (rstrip s) = hd s"
proof (induction s rule: rev_induct)
  case Nil
  then show ?case by simp
next
  case (snoc x xs)
  show ?case
  proof (cases "xs = []")
    case True
    with snoc.prems have "\<not> isspace x" by simp
    then have "rstrip (xs @ [x]) = xs @ [x]" by (simp add: rstrip_snoc)
    then show ?thesis by simp
  next
    case False
    with snoc have "rstrip xs \<noteq> [] \<and> hd (rstrip xs) = hd xs" by simp
    with False show ?thesis by (simp add: rstrip_snoc)
  qed
qed

lemma strip_ends:
  assumes "strip s \<noteq> []"
  shows "\<not> isspace (hd (strip s))" and "\<not> isspace (last (strip s))"
proof -
  from assms have ne: "lstrip s \<noteq> []" by (auto simp: strip_def rstrip_def)
  then have "\<not> isspace (hd (lstrip s))" by (rule lstrip_hd)
  with ne show "\<not> isspace (hd (strip s))" by (simp add: strip_def rstrip_hd)
  from assms show "\<not> isspace (last (strip s))" unfolding strip_def by (rule rstrip_last)
qed

lemma strip_strip: "strip (strip s) = strip s"
proof (cases "strip s = []")
  case True
  then show ?thesis by (simp add: strip_Nil)
next
  case False
  then show ?thesis by (simp add: strip_clean strip_ends)
qed

section \<open>The characters of a formatted score\<close>

lemma digit_char_num: "is_num_char (digit_char d)"
proof -
  have "list_all is_num_char ''0123456789''" by (simp add: is_num_char_def)
  moreover have "d mod 10 < length ''0123456789''" by simp
  ultimately show ?thesis unfolding digit_char_def list_all_length by blast
qed

lemma str_nat_num: "list_all is_num_char (str_nat n)"
proof (induction n rule: str_nat.induct)
  case (1 n)
  show ?case
  proof (cases "n < 10")
    case True
    then have "str_nat n = [digit_char n]" by (subst str_nat.simps) simp
    then show ?thesis by (simp add: digit_char_num)
  next
    case False
    then have "str_nat n = str_nat (n div 10) @ [digit_char n]" by (subst str_nat.simps) simp
    then show ?thesis using 1 False by (simp add: digit_char_num)
  qed
qed

lemma fmt3_num: "list_all is_num_char (fmt3 s)"
proof -
  have "is_num_char CHR ''-''" "is_num_char CHR ''.''" by (simp_all add: is_num_char_def)
  then show ?thesis
    unfolding fmt3_def Let_def by (simp add: str_nat_num digit_char_num)
qed

lemma fmt3_last: "fmt3 s \<noteq> [] \<and> is_num_char (last (fmt3 s))"
  unfolding fmt3_def Let_def by (simp add: digit_char_num)

lemma num_char_not_space: "is_num_char c \<Longrightarrow> \<not> isspace c \<and> c \<noteq> CHR ''|''"
  unfolding is_num_char_def by (auto simp: isspace_def)

section \<open>The rewrite of the annotation\<close>

lemma score_clause_no_bar: "CHR ''|'' \<notin> set (score_clause s)"
proof -
  have "\<forall>c \<in> set (fmt3 s). c \<noteq> CHR ''|''"
    using fmt3_num [of s] num_char_not_space by (auto simp: list_all_iff)
  then show ?thesis unfolding score_clause_def by auto
qed

lemma score_clause_strip: "strip (score_clause s) = score_clause s"
proof (rule strip_clean)
  show "score_clause s \<noteq> []" by (simp add: score_clause_def)
  show "\<not> isspace (hd (score_clause s))" by (simp add: score_clause_def isspace_def)
  have "last (score_clause s) = last (fmt3 s)"
    using fmt3_last [of s] by (simp add: score_clause_def)
  then show "\<not> isspace (last (score_clause s))"
    using fmt3_last [of s] num_char_not_space [of "last (fmt3 s)"] by simp
qed

lemma is_score_clause_score_clause: "is_score_clause (score_clause s)"
  by (simp add: is_score_clause_def score_clause_def)

lemma bar_not_space: "\<not> isspace CHR ''|''"
  by (simp add: isspace_def)

lemma map_strip_filter:
  "map strip (filter (\<lambda>p. strip p \<noteq> [] \<and> \<not> is_score_clause (strip p)) xs) =
   filter (\<lambda>p. p \<noteq> [] \<and> \<not> is_score_clause p) (map strip xs)"
  by (induction xs) simp_all

lemma new_reasons_spec: "new_reasons s row = spec_rewrite s (row_get ''reasons'' row)"
  unfolding new_reasons_def spec_rewrite_def clauses_def Let_def score_clause_def
  by (simp only: map_strip_filter map_strip_split_strip [OF bar_not_space])

lemma kept_no_bar:
  "p \<in> set (filter (\<lambda>p. p \<noteq> [] \<and> \<not> is_score_clause p) (clauses a)) \<Longrightarrow> CHR ''|'' \<notin> set p"
proof -
  assume "p \<in> set (filter (\<lambda>p. p \<noteq> [] \<and> \<not> is_score_clause p) (clauses a))"
  then obtain w where w: "w \<in> set (split_on CHR ''|'' a)" and p: "p = strip w"
    by (auto simp: clauses_def)
  from w have "CHR ''|'' \<notin> set w" by (rule split_on_no_sep)
  with p set_strip [of w] show ?thesis by blast
qed

lemma kept_strip:
  "map strip (filter (\<lambda>p. p \<noteq> [] \<and> \<not> is_score_clause p) (clauses a)) =
   filter (\<lambda>p. p \<noteq> [] \<and> \<not> is_score_clause p) (clauses a)"
proof -
  have "\<forall>p \<in> set (clauses a). strip p = p"
    by (auto simp: clauses_def strip_strip)
  then have "\<forall>p \<in> set (filter (\<lambda>p. p \<noteq> [] \<and> \<not> is_score_clause p) (clauses a)). strip p = p"
    by simp
  then show ?thesis by (simp only: map_idI)
qed

lemma clauses_spec_rewrite:
  "clauses (spec_rewrite s a) =
     filter (\<lambda>p. p \<noteq> [] \<and> \<not> is_score_clause p) (clauses a) @ [score_clause s]"
proof -
  let ?ks = "filter (\<lambda>p. p \<noteq> [] \<and> \<not> is_score_clause p) (clauses a)"
  let ?ps = "?ks @ [score_clause s]"
  have nobar: "\<forall>p \<in> set ?ps. CHR ''|'' \<notin> set p"
    using kept_no_bar [of _ a] score_clause_no_bar [of s] by auto
  have ne: "?ps \<noteq> []" by simp
  have "split_on CHR ''|'' (join ''|'' ?ps) = ?ps"
    using ne nobar by (rule split_on_join)
  moreover have "map strip ?ps = ?ps"
    using kept_strip [of a] by (simp add: score_clause_strip)
  ultimately show ?thesis by (simp only: spec_rewrite_def clauses_def)
qed

lemma score_clauses_spec_rewrite: "score_clauses (spec_rewrite s a) = [score_clause s]"
proof -
  have "filter is_score_clause (filter (\<lambda>p. p \<noteq> [] \<and> \<not> is_score_clause p) (clauses a)) = []"
    by (simp add: filter_empty_conv)
  then show ?thesis
    by (simp add: score_clauses_def clauses_spec_rewrite is_score_clause_score_clause)
qed

lemma kept_spec_rewrite:
  "filter (\<lambda>p. p \<noteq> [] \<and> \<not> is_score_clause p) (clauses (spec_rewrite s a)) =
   filter (\<lambda>p. p \<noteq> [] \<and> \<not> is_score_clause p) (clauses a)"
  by (simp add: clauses_spec_rewrite is_score_clause_score_clause)

lemma spec_rewrite_twice: "spec_rewrite s2 (spec_rewrite s1 a) = spec_rewrite s2 a"
  by (simp only: spec_rewrite_def [of s2] kept_spec_rewrite)

lemma row_get_row_set: "row_get k (row_set k v row) = v"
  by (simp add: row_get_def row_set_def update_conv')

lemma row_get_row_set_other: "k' \<noteq> k \<Longrightarrow> row_get k' (row_set k v row) = row_get k' row"
  by (simp add: row_get_def row_set_def update_conv')

lemma reasons_annotate: "row_get ''reasons'' (annotate s row) = spec_rewrite s (row_get ''reasons'' row)"
  by (simp add: annotate_def row_get_row_set new_reasons_spec)

lemma scorable_annotate: "scorable (annotate s row) = scorable row"
  by (simp add: scorable_def annotate_def row_get_row_set_other)

section \<open>Facts about the score engine\<close>

lemma app_normalize_eq: "app_normalize t = normalize t"
  by (simp add: app_normalize_def normalize_def)

lemma inverse_range: "1 < (a::real) \<Longrightarrow> 0 < 1 / a \<and> 1 / a < 1"
  by (auto simp: field_simps)

lemma sigmoid_range: "0 < sigmoid x \<and> sigmoid x < 1"
proof -
  have "0 < exp (- x)" by simp
  then have "1 < 1 + exp (- x)" by linarith
  then show ?thesis unfolding sigmoid_def by (rule inverse_range)
qed

lemma softmax2_range: "0 < exp y / (exp x + exp y) \<and> exp y / (exp x + exp y) < (1::real)"
proof -
  have "0 < exp x" "0 < exp y" by simp_all
  then show ?thesis by (simp add: field_simps add_pos_pos)
qed

lemma chunk_one: "i < length xs \<Longrightarrow> chunk 1 i xs = [xs ! i]"
  by (simp add: chunk_def take_Suc_conv_app_nth hd_drop_conv_nth take_Suc)

lemma chunk_two: "2 * i + 1 < length xs \<Longrightarrow> chunk 2 i xs = [xs ! (2 * i), xs ! (2 * i + 1)]"
proof -
  assume a: "2 * i + 1 < length xs"
  then have "drop (i * 2) xs = xs ! (2 * i) # drop (Suc (2 * i)) xs"
    by (simp add: Cons_nth_drop_Suc mult.commute)
  moreover from a have "drop (Suc (2 * i)) xs = xs ! (2 * i + 1) # drop (Suc (Suc (2 * i))) xs"
    by (simp add: Cons_nth_drop_Suc)
  ultimately show ?thesis by (simp add: chunk_def numeral_2_eq_2)
qed

lemma chunk_hd: "0 < c \<Longrightarrow> i * c < length xs \<Longrightarrow> chunk c i xs \<noteq> [] \<and> hd (chunk c i xs) = xs ! (i * c)"
  by (cases c) (simp_all add: chunk_def hd_drop_conv_nth take_Suc)

lemma concat_nth_uniform:
  "\<forall>xs \<in> set xss. length xs = n \<Longrightarrow> i < length xss \<Longrightarrow> k < n \<Longrightarrow>
   concat xss ! (i * n + k) = xss ! i ! k"
proof (induction xss arbitrary: i)
  case Nil
  then show ?case by simp
next
  case (Cons xs xss)
  show ?case
  proof (cases i)
    case 0
    with Cons.prems show ?thesis by (simp add: nth_append)
  next
    case (Suc j)
    with Cons.prems have "concat xss ! (j * n + k) = xss ! j ! k"
      by (intro Cons.IH) auto
    moreover have "length xs = n" using Cons.prems by simp
    ultimately show ?thesis using Suc by (simp add: nth_append)
  qed
qed

lemma normalize_one:
  "shape t = [b, 1] \<Longrightarrow> normalize t = Inr (map sigmoid (data t))"
  by (simp add: normalize_def dim_def size_last_def sigmoid_t_def squeeze_last_def)

lemma softmax_two: "softmax [x0, x1] = [exp x0 / (exp x0 + exp x1), exp x1 / (exp x0 + exp x1)]"
  by (simp add: softmax_def)

lemma softmax_last_nth:
  assumes wf: "length xs = b * 2" and i: "i < b"
  shows "concat (map softmax (chunks 2 xs)) ! (i * 2 + 1) =
         exp (xs ! (2 * i + 1)) / (exp (xs ! (2 * i)) + exp (xs ! (2 * i + 1)))"
proof -
  let ?xss = "map softmax (chunks 2 xs)"
  have len: "length ?xss = b" using wf by (simp add: chunks_def)
  have ch: "chunk 2 j xs = [xs ! (2 * j), xs ! (2 * j + 1)]" if "j < b" for j
    using that wf by (intro chunk_two) auto
  have nth: "?xss ! j = softmax [xs ! (2 * j), xs ! (2 * j + 1)]" if "j < b" for j
    using that wf ch [OF that] by (simp add: chunks_def)
  have "\<forall>ys \<in> set ?xss. length ys = 2"
  proof
    fix ys assume "ys \<in> set ?xss"
    then obtain j where "j < b" "ys = ?xss ! j"
      using len by (metis in_set_conv_nth)
    then show "length ys = 2" using nth [of j] by (simp add: softmax_two)
  qed
  then have "concat ?xss ! (i * 2 + 1) = ?xss ! i ! 1"
    using i len by (intro concat_nth_uniform) auto
  then show ?thesis using nth [OF i] by (simp add: softmax_two)
qed

lemma normalize_two:
  assumes "wf_tensor t" and "shape t = [b, 2]"
  shows "normalize t =
         Inr (map (\<lambda>i. exp (data t ! (2 * i + 1)) / (exp (data t ! (2 * i)) + exp (data t ! (2 * i + 1))))
                  [0..<b])"
proof -
  from assms have len: "length (data t) = b * 2" by (simp add: wf_tensor_def)
  have "map (\<lambda>i. concat (map softmax (chunks 2 (data t))) ! (i * 2 + 1)) [0..<b] =
        map (\<lambda>i. exp (data t ! (2 * i + 1)) / (exp (data t ! (2 * i)) + exp (data t ! (2 * i + 1)))) [0..<b]"
    using softmax_last_nth [OF len] by simp
  then show ?thesis using assms(2)
    by (simp add: normalize_def dim_def size_last_def softmax_last_def column_def)
qed

lemma normalize_other:
  assumes "shape t = b # rest" and "rest \<noteq> [1]" and "rest \<noteq> [2]" and "0 < b" and "0 < prod_list rest"
  shows "normalize t = Inr (map (\<lambda>i. sigmoid (data t ! (i * prod_list rest))) [0..<b])"
proof -
  have not1: "\<not> (dim t = 2 \<and> size_last t = 1)"
    using assms(1,2) by (cases rest) (auto simp: dim_def size_last_def)
  have not2: "\<not> (dim t = 2 \<and> size_last t = 2)"
    using assms(1,3) by (cases rest) (auto simp: dim_def size_last_def)
  have r: "reshape_rows t = Inr (t\<lparr>shape := [b, prod_list rest]\<rparr>)"
    using assms(1,4) by (simp add: reshape_rows_def)
  have c: "column 0 (t\<lparr>shape := [b, prod_list rest]\<rparr>) =
           Inr \<lparr>shape = [b], data = map (\<lambda>i. data t ! (i * prod_list rest)) [0..<b]\<rparr>"
    using assms(5) by (simp add: column_def)
  have "normalize t =
        (case reshape_rows t of
           Inl e \<Rightarrow> Inl e
         | Inr r \<Rightarrow>
             (case column 0 r of
                Inl e \<Rightarrow> Inl e
              | Inr c \<Rightarrow> Inr (data (sigmoid_t c))))"
    unfolding normalize_def by (simp only: not1 not2 if_False)
  then show ?thesis by (simp add: r c sigmoid_t_def comp_def)
qed

lemma normalize_fails:
  "shape t = [] \<Longrightarrow> normalize t = Inl IndexError"
  "shape t = 0 # rest \<Longrightarrow> rest \<noteq> [1] \<Longrightarrow> rest \<noteq> [2] \<Longrightarrow> normalize t = Inl RuntimeError"
  "shape t = b # rest \<Longrightarrow> 0 < b \<Longrightarrow> prod_list rest = 0 \<Longrightarrow> normalize t = Inl IndexError"
proof -
  show "shape t = [] \<Longrightarrow> normalize t = Inl IndexError"
    by (simp add: normalize_def dim_def reshape_rows_def)
  show "shape t = 0 # rest \<Longrightarrow> rest \<noteq> [1] \<Longrightarrow> rest \<noteq> [2] \<Longrightarrow> normalize t = Inl RuntimeError"
    by (cases rest) (auto simp: normalize_def dim_def size_last_def reshape_rows_def)
  show "shape t = b # rest \<Longrightarrow> 0 < b \<Longrightarrow> prod_list rest = 0 \<Longrightarrow> normalize t = Inl IndexError"
    by (cases rest) (auto simp: normalize_def dim_def size_last_def reshape_rows_def column_def)
qed

lemma logit_row_one:
  assumes "wf_tensor t" and "shape t = [b, 1]" and "i < b"
  shows "logit_row t i = [data t ! i]"
proof -
  from assms have "i < length (data t)" by (simp add: wf_tensor_def)
  then have "chunk 1 i (data t) = [data t ! i]" by (rule chunk_one)
  then show ?thesis using assms(2) by (simp add: logit_row_def)
qed

lemma logit_row_two:
  assumes "wf_tensor t" and "shape t = [b, 2]" and "i < b"
  shows "logit_row t i = [data t ! (2 * i), data t ! (2 * i + 1)]"
proof -
  from assms have "2 * i + 1 < length (data t)" by (simp add: wf_tensor_def)
  then show ?thesis using assms(2) by (simp add: logit_row_def chunk_two)
qed

lemma logit_row_hd:
  assumes "wf_tensor t" and "shape t = b # rest" and "i < b" and "0 < prod_list rest"
  shows "logit_row t i \<noteq> [] \<and> hd (logit_row t i) = data t ! (i * prod_list rest)"
proof -
  have "i * prod_list rest < b * prod_list rest" using assms(3,4) by simp
  then have "i * prod_list rest < length (data t)" using assms(1,2) by (simp add: wf_tensor_def)
  then show ?thesis using assms(2,4) by (simp add: logit_row_def chunk_hd)
qed

lemma normalize_dispatch:
  assumes wf: "wf_tensor t" and sh: "shape t = b # rest"
  shows "(rest = [1] \<longrightarrow>
            (\<exists>ss. normalize t = Inr ss \<and> app_normalize t = Inr ss \<and> length ss = b \<and>
                  (\<forall>i<b. \<exists>v. logit_row t i = [v] \<and> ss ! i = sigmoid v))) \<and>
         (rest = [2] \<longrightarrow>
            (\<exists>ss. normalize t = Inr ss \<and> app_normalize t = Inr ss \<and> length ss = b \<and>
                  (\<forall>i<b. \<exists>x0 x1. logit_row t i = [x0, x1] \<and> ss ! i = softmax [x0, x1] ! 1 \<and>
                                   ss ! i = exp x1 / (exp x0 + exp x1)))) \<and>
         (rest \<noteq> [1] \<and> rest \<noteq> [2] \<and> 0 < b \<and> 0 < prod_list rest \<longrightarrow>
            (\<exists>ss. normalize t = Inr ss \<and> app_normalize t = Inr ss \<and> length ss = b \<and>
                  (\<forall>i<b. logit_row t i \<noteq> [] \<and> ss ! i = sigmoid (hd (logit_row t i)))))"
proof (intro conjI impI)
  assume r: "rest = [1]"
  with sh have s1: "shape t = [b, 1]" by simp
  with wf have len: "length (data t) = b" by (simp add: wf_tensor_def)
  let ?ss = "map sigmoid (data t)"
  have "normalize t = Inr ?ss" using s1 by (rule normalize_one)
  moreover have "\<forall>i<b. \<exists>v. logit_row t i = [v] \<and> ?ss ! i = sigmoid v"
    using logit_row_one [OF wf s1] len by simp
  ultimately show "\<exists>ss. normalize t = Inr ss \<and> app_normalize t = Inr ss \<and> length ss = b \<and>
                  (\<forall>i<b. \<exists>v. logit_row t i = [v] \<and> ss ! i = sigmoid v)"
    using len by (simp add: app_normalize_eq)
next
  assume r: "rest = [2]"
  with sh have s2: "shape t = [b, 2]" by simp
  let ?ss = "map (\<lambda>i. exp (data t ! (2 * i + 1)) / (exp (data t ! (2 * i)) + exp (data t ! (2 * i + 1)))) [0..<b]"
  have "normalize t = Inr ?ss" using wf s2 by (rule normalize_two)
  moreover have "\<forall>i<b. \<exists>x0 x1. logit_row t i = [x0, x1] \<and> ?ss ! i = softmax [x0, x1] ! 1 \<and>
                                   ?ss ! i = exp x1 / (exp x0 + exp x1)"
    using logit_row_two [OF wf s2] by (simp add: softmax_two)
  ultimately show "\<exists>ss. normalize t = Inr ss \<and> app_normalize t = Inr ss \<and> length ss = b \<and>
                  (\<forall>i<b. \<exists>x0 x1. logit_row t i = [x0, x1] \<and> ss ! i = softmax [x0, x1] ! 1 \<and>
                                   ss ! i = exp x1 / (exp x0 + exp x1))"
    by (simp add: app_normalize_eq)
next
  assume a: "rest \<noteq> [1] \<and> rest \<noteq> [2] \<and> 0 < b \<and> 0 < prod_list rest"
  let ?ss = "map (\<lambda>i. sigmoid (data t ! (i * prod_list rest))) [0..<b]"
  have "normalize t = Inr ?ss" using sh a by (intro normalize_other) simp_all
  moreover have "\<forall>i<b. logit_row t i \<noteq> [] \<and> ?ss ! i = sigmoid (hd (logit_row t i))"
    using logit_row_hd [OF wf sh] a by simp
  ultimately show "\<exists>ss. normalize t = Inr ss \<and> app_normalize t = Inr ss \<and> length ss = b \<and>
                  (\<forall>i<b. logit_row t i \<noteq> [] \<and> ss ! i = sigmoid (hd (logit_row t i)))"
    by (simp add: app_normalize_eq)
qed

lemma row_score_range:
  assumes "length xs = 2 \<or> xs \<noteq> []"
  shows "0 < row_score xs \<and> row_score xs < 1"
proof (cases "length xs = 2")
  case True
  then obtain x0 x1 where "xs = [x0, x1]"
    by (cases xs; cases "tl xs") auto
  then show ?thesis using softmax2_range [of x1 x0] by (simp add: row_score_def softmax_two)
next
  case False
  then show ?thesis using sigmoid_range by (simp add: row_score_def)
qed


lemma app_score_pairs_loaded:
  "app_tokenizer app = Some tok \<Longrightarrow> app_model app = Some mdl \<Longrightarrow>
   app_score_pairs app queries texts = score_pairs tok mdl (app_device app) queries texts (MAX_LENGTH app)"
  by (simp add: app_score_pairs_def score_pairs_def app_normalize_eq split: sum.splits)


lemma ex_score_pairs:
  "length qs = length ts \<Longrightarrow> score_pairs ex_tokenizer ex_model dev qs ts len = Inr (map (\<lambda>_. 1 / 2) qs)"
  by (simp add: score_pairs_def ex_tokenizer_def ex_model_def normalize_one sigmoid_def comp_def
      map_replicate_const)

lemma logit_row_length:
  assumes "wf_tensor t" and "shape t = b # rest" and "i < b"
  shows "length (logit_row t i) = prod_list rest"
proof -
  have "Suc i \<le> b" using assms(3) by simp
  then have "Suc i * prod_list rest \<le> b * prod_list rest" by (rule mult_le_mono1)
  then have "i * prod_list rest + prod_list rest \<le> length (data t)"
    using assms(1,2) by (simp add: wf_tensor_def add.commute)
  then show ?thesis using assms(2) by (simp add: logit_row_def chunk_def)
qed

lemma app_normalize_fails:
  "shape t = [] \<Longrightarrow> app_normalize t = Inl IndexError"
  "shape t = 0 # rest \<Longrightarrow> rest \<noteq> [1] \<Longrightarrow> rest \<noteq> [2] \<Longrightarrow> app_normalize t = Inl RuntimeError"
  "shape t = b # rest \<Longrightarrow> 0 < b \<Longrightarrow> prod_list rest = 0 \<Longrightarrow> app_normalize t = Inl IndexError"
  by (simp_all add: app_normalize_eq normalize_fails)

lemma ex_logit_values: "sigmoid 0 = 1 / 2" "sigmoid (ln 3) = 3 / 4"
  "exp (ln 3) / (exp 0 + exp (ln 3)) = (3 / 4 :: real)"
  by (simp_all add: sigmoid_def exp_minus)

lemma ex_logit_rows:
  "logit_row ex_logits1 0 = [0]" "logit_row ex_logits1 1 = [ln 3]"
  "logit_row ex_logits2 0 = [0, ln 3]" "logit_row ex_logits3 0 = [ln 3, 0, 0]"
  "logit_row ex_logits4 0 = [0, ln 3]"
  by (simp_all add: logit_row_def chunk_def ex_logits1_def ex_logits2_def ex_logits3_def
      ex_logits4_def)

section \<open>The loop of the enrichment job\<close>

lemma scorable_iff: "scorable row \<longleftrightarrow> query_of row \<noteq> [] \<and> text_of row \<noteq> []"
  by (simp add: scorable_def query_of_def text_of_def)

lemma query_of_annotate: "query_of (annotate s row) = query_of row"
  by (simp add: query_of_def annotate_def row_get_row_set_other)

lemma text_of_annotate: "text_of (annotate s row) = text_of row"
  by (simp add: text_of_def annotate_def row_get_row_set_other)

lemma annotate_spec: "annotate s row = row_set ''reasons'' (spec_rewrite s (row_get ''reasons'' row)) row"
  by (simp add: annotate_def new_reasons_spec)

lemma rescored_annotate: "rescored r (annotate s r)"
  unfolding rescored_def annotate_spec by blast

lemma loop_break:
  "max_rows e \<noteq> 0 \<and> max_rows e \<le> total j \<Longrightarrow> loop e (row # rest) j = Inr j"
  by simp

lemma loop_pass:
  "\<not> (max_rows e \<noteq> 0 \<and> max_rows e \<le> total j) \<Longrightarrow> \<not> scorable row \<Longrightarrow>
   loop e (row # rest) j = loop e rest (j\<lparr>written := written j @ [row], total := total j + 1\<rparr>)"
  by (auto simp: scorable_def Let_def)

lemma loop_push:
  "\<not> (max_rows e \<noteq> 0 \<and> max_rows e \<le> total j) \<Longrightarrow> scorable row \<Longrightarrow>
   \<not> batch_size e \<le> int (length (buf_rows j)) + 1 \<Longrightarrow>
   loop e (row # rest) j =
     loop e rest (j\<lparr>buf_rows := buf_rows j @ [row], buf_q := buf_q j @ [query_of row],
                    buf_t := buf_t j @ [text_of row]\<rparr>)"
  by (auto simp: scorable_def query_of_def text_of_def Let_def)

lemma loop_flush:
  "\<not> (max_rows e \<noteq> 0 \<and> max_rows e \<le> total j) \<Longrightarrow> scorable row \<Longrightarrow>
   batch_size e \<le> int (length (buf_rows j)) + 1 \<Longrightarrow>
   loop e (row # rest) j =
     (case flush e (j\<lparr>buf_rows := buf_rows j @ [row], buf_q := buf_q j @ [query_of row],
                       buf_t := buf_t j @ [text_of row]\<rparr>) of
        Inl err \<Rightarrow> Inl err
      | Inr j'' \<Rightarrow> loop e rest j'')"
  by (auto simp: scorable_def query_of_def text_of_def Let_def)

lemma flush_empty: "buf_rows j = [] \<Longrightarrow> flush e j = Inr j"
  by (simp add: flush_def)

lemma flush_scores:
  assumes "buf_rows j \<noteq> []"
    and "score_pairs (tokenizer e) (model e) (device e) (buf_q j) (buf_t j) (max_length e) = Inr ss"
  shows "flush e j =
         Inr (j\<lparr>written := written j @ map (\<lambda>(row, s). annotate s row) (zip (buf_rows j) ss),
                total := total j + int (length (zip (buf_rows j) ss)),
                buf_rows := [], buf_q := [], buf_t := [],
                calls := calls j @ [(buf_q j, buf_t j)]\<rparr>)"
  using assms by (simp add: flush_def)

lemma flush_ok:
  assumes ok: "engine_ok e" and b: "buf_ok j" and ne: "buf_rows j \<noteq> []"
  shows "\<exists>ss. length ss = length (buf_rows j) \<and> returned e (buf_q j, buf_t j) = ss \<and>
           flush e j =
           Inr (j\<lparr>written := written j @ map (\<lambda>(row, s). annotate s row) (zip (buf_rows j) ss),
                  total := total j + int (length (buf_rows j)),
                  buf_rows := [], buf_q := [], buf_t := [],
                  calls := calls j @ [(buf_q j, buf_t j)]\<rparr>)"
proof -
  from b have "length (buf_q j) = length (buf_t j)" and lq: "length (buf_q j) = length (buf_rows j)"
    by (simp_all add: buf_ok_def)
  with ok obtain ss where
    ss: "score_pairs (tokenizer e) (model e) (device e) (buf_q j) (buf_t j) (max_length e) = Inr ss"
    and len: "length ss = length (buf_q j)"
    unfolding engine_ok_def by blast
  have "returned e (buf_q j, buf_t j) = ss" by (simp add: returned_def ss)
  moreover have "length (zip (buf_rows j) ss) = length (buf_rows j)" using len lq by simp
  ultimately show ?thesis using flush_scores [OF ne ss] len lq by simp
qed

lemma consumed_start: "consumed e [] job0"
  by (simp add: consumed_def buf_ok_def job0_def scores_of_def)

lemma consumed_pass:
  assumes "consumed e P j" and "\<not> scorable row"
  shows "consumed e (P @ [row]) (j\<lparr>written := written j @ [row], total := total j + 1\<rparr>)"
  using assms by (auto simp: consumed_def buf_ok_def scores_of_def)

lemma consumed_push:
  assumes "consumed e P j" and "scorable row"
  shows "consumed e (P @ [row])
           (j\<lparr>buf_rows := buf_rows j @ [row], buf_q := buf_q j @ [query_of row],
              buf_t := buf_t j @ [text_of row]\<rparr>)"
  using assms by (auto simp: consumed_def buf_ok_def scores_of_def)

lemma annotated_scorable:
  assumes "list_all scorable B"
  shows "filter scorable (map (\<lambda>(row, s). annotate s row) (zip B ss)) =
           map (\<lambda>(row, s). annotate s row) (zip B ss)"
    and "filter (\<lambda>r. \<not> scorable r) (map (\<lambda>(row, s). annotate s row) (zip B ss)) = []"
proof -
  have "\<forall>w \<in> set (map (\<lambda>(row, s). annotate s row) (zip B ss)). scorable w"
    using assms by (auto simp: list_all_iff scorable_annotate dest: set_zip_leftD)
  then show "filter scorable (map (\<lambda>(row, s). annotate s row) (zip B ss)) =
           map (\<lambda>(row, s). annotate s row) (zip B ss)"
    and "filter (\<lambda>r. \<not> scorable r) (map (\<lambda>(row, s). annotate s row) (zip B ss)) = []"
    by (simp_all add: filter_empty_conv)
qed

lemma consumed_flush:
  assumes ok: "engine_ok e" and c: "consumed e P j" and f: "flush e j = Inr j'"
  shows "consumed e P j' \<and> buf_rows j' = []"
proof (cases "buf_rows j = []")
  case True
  with f have "j' = j" by (simp add: flush_def)
  with c True show ?thesis by simp
next
  case False
  from c have b: "buf_ok j" by (simp add: consumed_def)
  from flush_ok [OF ok b False] f obtain ss where
    len: "length ss = length (buf_rows j)" and ret: "returned e (buf_q j, buf_t j) = ss"
    and j': "j' = j\<lparr>written := written j @ map (\<lambda>(row, s). annotate s row) (zip (buf_rows j) ss),
                  total := total j + int (length (buf_rows j)),
                  buf_rows := [], buf_q := [], buf_t := [],
                  calls := calls j @ [(buf_q j, buf_t j)]\<rparr>"
    by auto
  from c obtain D where D: "filter scorable P = D @ buf_rows j"
    "length (scores_of e j) = length D"
    "filter scorable (written j) = map (\<lambda>(r, s). annotate s r) (zip D (scores_of e j))"
    "concat (map fst (calls j)) = map query_of D"
    "concat (map snd (calls j)) = map text_of D"
    and tot: "total j = int (length (written j))"
    and ns: "filter (\<lambda>r. \<not> scorable r) (written j) = filter (\<lambda>r. \<not> scorable r) P"
    unfolding consumed_def by blast
  from b have all: "list_all scorable (buf_rows j)"
    and bq: "buf_q j = map query_of (buf_rows j)" and bt: "buf_t j = map text_of (buf_rows j)"
    by (simp_all add: buf_ok_def)
  have so: "scores_of e j' = scores_of e j @ ss"
    by (simp add: scores_of_def j' ret)
  let ?D = "D @ buf_rows j"
  have 1: "filter scorable P = ?D @ buf_rows j'" using D(1) by (simp add: j')
  have 2: "length (scores_of e j') = length ?D" using D(2) len by (simp add: so)
  have w: "written j' = written j @ map (\<lambda>(row, s). annotate s row) (zip (buf_rows j) ss)"
    by (simp add: j')
  have z: "zip ?D (scores_of e j @ ss) = zip D (scores_of e j) @ zip (buf_rows j) ss"
    using D(2) by simp
  have 3: "filter scorable (written j') = map (\<lambda>(r, s). annotate s r) (zip ?D (scores_of e j'))"
    unfolding so z w using D(3) annotated_scorable(1) [OF all, of ss] by simp
  have 4: "concat (map fst (calls j')) = map query_of ?D"
    using D(4) bq by (simp add: j')
  have 5: "concat (map snd (calls j')) = map text_of ?D"
    using D(5) bt by (simp add: j')
  have 6: "filter (\<lambda>r. \<not> scorable r) (written j') = filter (\<lambda>r. \<not> scorable r) P"
    unfolding w using ns annotated_scorable(2) [OF all, of ss] by simp
  have 7: "total j' = int (length (written j'))"
    unfolding w using tot len by (simp add: j')
  have 8: "buf_ok j'" by (simp add: buf_ok_def j')
  have "buf_rows j' = []" by (simp add: j')
  with 1 2 3 4 5 6 7 8 show ?thesis unfolding consumed_def by blast
qed

lemma loop_consumed:
  assumes "engine_ok e" and "consumed e P j" and "loop e rows j = Inr j'"
  shows "\<exists>n\<le>length rows. consumed e (P @ take n rows) j' \<and> (max_rows e = 0 \<longrightarrow> n = length rows)"
  using assms(2,3)
proof (induction rows arbitrary: P j)
  case Nil
  then show ?case by simp
next
  case (Cons row rest)
  show ?case
  proof (cases "max_rows e \<noteq> 0 \<and> max_rows e \<le> total j")
    case True
    with Cons.prems have "j' = j" by simp
    with Cons.prems(1) True show ?thesis by (intro exI [of _ 0]) simp
  next
    case cap: False
    have step: "\<exists>n\<le>length (row # rest). consumed e (P @ take n (row # rest)) j' \<and>
                  (max_rows e = 0 \<longrightarrow> n = length (row # rest))"
      if c: "consumed e (P @ [row]) j1" and l: "loop e rest j1 = Inr j'" for j1
    proof -
      from Cons.IH [OF c l] obtain n where n: "n \<le> length rest"
        "consumed e ((P @ [row]) @ take n rest) j'" "max_rows e = 0 \<longrightarrow> n = length rest"
        by blast
      then show ?thesis by (intro exI [of _ "Suc n"]) simp
    qed
    show ?thesis
    proof (cases "scorable row")
      case False
      let ?j1 = "j\<lparr>written := written j @ [row], total := total j + 1\<rparr>"
      have "loop e rest ?j1 = Inr j'" using Cons.prems(2) loop_pass [OF cap False] by simp
      moreover have "consumed e (P @ [row]) ?j1" using Cons.prems(1) False by (rule consumed_pass)
      ultimately show ?thesis by (intro step)
    next
      case True
      let ?j1 = "j\<lparr>buf_rows := buf_rows j @ [row], buf_q := buf_q j @ [query_of row],
                    buf_t := buf_t j @ [text_of row]\<rparr>"
      have c1: "consumed e (P @ [row]) ?j1" using Cons.prems(1) True by (rule consumed_push)
      show ?thesis
      proof (cases "batch_size e \<le> int (length (buf_rows j)) + 1")
        case False
        have "loop e rest ?j1 = Inr j'" using Cons.prems(2) loop_push [OF cap True False] by simp
        with c1 show ?thesis by (intro step)
      next
        case full: True
        from Cons.prems(2) loop_flush [OF cap True full] obtain j2 where
          f: "flush e ?j1 = Inr j2" and l: "loop e rest j2 = Inr j'"
          by (auto split: sum.splits)
        from consumed_flush [OF assms(1) c1 f] have "consumed e (P @ [row]) j2" by simp
        with l show ?thesis by (intro step)
      qed
    qed
  qed
qed

lemma main_consumed:
  assumes "engine_ok e" and "main e fieldnames rows = Inr j"
  shows "\<exists>n\<le>length rows. consumed e (take n rows) j \<and> buf_rows j = [] \<and>
           (max_rows e = 0 \<longrightarrow> n = length rows)"
proof -
  from assms(2) obtain j1 where l: "loop e rows job0 = Inr j1" and f: "flush e j1 = Inr j"
    by (auto simp: main_def split: option.splits if_splits sum.splits)
  from loop_consumed [OF assms(1) consumed_start l] obtain n where
    n: "n \<le> length rows" "consumed e (take n rows) j1" "max_rows e = 0 \<longrightarrow> n = length rows"
    by auto
  from consumed_flush [OF assms(1) n(2) f] n(1,3) show ?thesis by blast
qed

lemma buf_ok_pass: "buf_ok j \<Longrightarrow> buf_ok (j\<lparr>written := w, total := t\<rparr>)"
  by (simp add: buf_ok_def)

lemma buf_ok_push:
  "buf_ok j \<Longrightarrow> scorable row \<Longrightarrow>
   buf_ok (j\<lparr>buf_rows := buf_rows j @ [row], buf_q := buf_q j @ [query_of row],
              buf_t := buf_t j @ [text_of row]\<rparr>)"
  by (simp add: buf_ok_def)

lemma flush_returns:
  assumes "engine_ok e" and "buf_ok j"
  shows "\<exists>j'. flush e j = Inr j' \<and> buf_ok j' \<and> buf_rows j' = []"
proof (cases "buf_rows j = []")
  case True
  with assms(2) show ?thesis by (simp add: flush_empty)
next
  case False
  from flush_ok [OF assms False] obtain ss where
    "flush e j =
           Inr (j\<lparr>written := written j @ map (\<lambda>(row, s). annotate s row) (zip (buf_rows j) ss),
                  total := total j + int (length (buf_rows j)),
                  buf_rows := [], buf_q := [], buf_t := [],
                  calls := calls j @ [(buf_q j, buf_t j)]\<rparr>)"
    by blast
  then show ?thesis by (simp add: buf_ok_def)
qed

lemma loop_returns:
  assumes "engine_ok e" and "buf_ok j"
  shows "\<exists>j'. loop e rows j = Inr j'"
  using assms(2)
proof (induction rows arbitrary: j)
  case Nil
  then show ?case by simp
next
  case (Cons row rest)
  show ?case
  proof (cases "max_rows e \<noteq> 0 \<and> max_rows e \<le> total j")
    case True
    then show ?thesis by simp
  next
    case cap: False
    show ?thesis
    proof (cases "scorable row")
      case False
      from Cons.prems have "buf_ok (j\<lparr>written := written j @ [row], total := total j + 1\<rparr>)"
        by (rule buf_ok_pass)
      from Cons.IH [OF this] show ?thesis by (simp only: loop_pass [OF cap False])
    next
      case True
      let ?j1 = "j\<lparr>buf_rows := buf_rows j @ [row], buf_q := buf_q j @ [query_of row],
                    buf_t := buf_t j @ [text_of row]\<rparr>"
      have b1: "buf_ok ?j1" using Cons.prems True by (rule buf_ok_push)
      show ?thesis
      proof (cases "batch_size e \<le> int (length (buf_rows j)) + 1")
        case False
        from Cons.IH [OF b1] show ?thesis by (simp only: loop_push [OF cap True False])
      next
        case full: True
        from flush_returns [OF assms(1) b1] obtain j2 where
          f: "flush e ?j1 = Inr j2" and b2: "buf_ok j2" by blast
        from Cons.IH [OF b2] obtain j' where "loop e rest j2 = Inr j'" by blast
        with f show ?thesis by (simp add: loop_flush [OF cap True full] del: loop.simps)
      qed
    qed
  qed
qed

lemma buf_ok_job0: "buf_ok job0"
  by (simp add: buf_ok_def job0_def)

lemma main_returns:
  assumes "engine_ok e" and "''reasons'' \<in> set fs"
  shows "\<exists>j. main e (Some fs) rows = Inr j"
proof -
  from loop_returns [OF assms(1) buf_ok_job0] obtain j1 where l: "loop e rows job0 = Inr j1"
    by blast
  from loop_consumed [OF assms(1) consumed_start l] have "buf_ok j1"
    by (auto simp: consumed_def)
  from flush_returns [OF assms(1) this] obtain j where "flush e j1 = Inr j" by blast
  with l assms(2) show ?thesis by (simp add: main_def)
qed

lemma main_headers:
  "main e None rows = Inl (SystemExit ''input csv missing header'')"
  "''reasons'' \<notin> set fs \<Longrightarrow> main e (Some fs) rows = Inl (SystemExit ''input csv missing reasons column'')"
  by (simp_all add: main_def)

lemma flush_single:
  assumes "engine_ok e" and "buf_rows j = [row]" and "buf_q j = [query_of row]"
    and "buf_t j = [text_of row]"
  shows "\<exists>s. flush e j =
           Inr (j\<lparr>written := written j @ [annotate s row], total := total j + 1,
                  buf_rows := [], buf_q := [], buf_t := [],
                  calls := calls j @ [([query_of row], [text_of row])]\<rparr>)"
proof -
  have "\<exists>ss. score_pairs (tokenizer e) (model e) (device e) [query_of row] [text_of row] (max_length e) = Inr ss \<and>
          length ss = length [query_of row]"
    using assms(1) [unfolded engine_ok_def, rule_format, of "[query_of row]" "[text_of row]"] by simp
  then obtain ss where
    ss: "score_pairs (tokenizer e) (model e) (device e) [query_of row] [text_of row] (max_length e) = Inr ss"
    and len: "length ss = 1"
    by auto
  from len obtain s where s: "ss = [s]" by (cases ss) auto
  have ne: "buf_rows j \<noteq> []" using assms(2) by simp
  have "score_pairs (tokenizer e) (model e) (device e) (buf_q j) (buf_t j) (max_length e) = Inr ss"
    using ss assms(3,4) by simp
  from flush_scores [OF ne this] show ?thesis using assms(2,3,4) s by auto
qed

lemma loop_in_order:
  assumes "engine_ok e" and "batch_size e \<le> 1"
    and "buf_rows j = []" and "buf_q j = []" and "buf_t j = []"
    and "loop e rows j = Inr j'"
  shows "\<exists>n\<le>length rows. \<exists>ws. written j' = written j @ ws \<and> list_all2 row_out (take n rows) ws \<and>
           buf_rows j' = []"
  using assms(3-6)
proof (induction rows arbitrary: j)
  case Nil
  then show ?case by simp
next
  case (Cons row rest)
  show ?case
  proof (cases "max_rows e \<noteq> 0 \<and> max_rows e \<le> total j")
    case True
    with Cons.prems have "j' = j" by simp
    with Cons.prems show ?thesis by (intro exI [of _ 0]) simp
  next
    case cap: False
    have step: ?thesis
      if w: "written j1 = written j @ [w]" and r: "row_out row w"
        and b: "buf_rows j1 = []" "buf_q j1 = []" "buf_t j1 = []"
        and l: "loop e rest j1 = Inr j'" for j1 w
    proof -
      from Cons.IH [OF b l] obtain n ws where n: "n \<le> length rest"
        "written j' = written j1 @ ws" "list_all2 row_out (take n rest) ws" "buf_rows j' = []"
        by blast
      have "written j' = written j @ (w # ws)" using n(2) w by simp
      moreover have "list_all2 row_out (take (Suc n) (row # rest)) (w # ws)" using n(3) r by simp
      ultimately show ?thesis using n(1,4) by (intro exI [of _ "Suc n"]) auto
    qed
    show ?thesis
    proof (cases "scorable row")
      case False
      let ?j1 = "j\<lparr>written := written j @ [row], total := total j + 1\<rparr>"
      have "loop e rest ?j1 = Inr j'" using Cons.prems(4) loop_pass [OF cap False] by simp
      moreover have "row_out row row" using False by (simp add: row_out_def)
      ultimately show ?thesis using Cons.prems(1-3) by (intro step [of ?j1 row]) simp_all
    next
      case True
      let ?j1 = "j\<lparr>buf_rows := buf_rows j @ [row], buf_q := buf_q j @ [query_of row],
                    buf_t := buf_t j @ [text_of row]\<rparr>"
      have full: "batch_size e \<le> int (length (buf_rows j)) + 1" using assms(2) by simp
      from flush_single [OF assms(1), of ?j1 row] Cons.prems(1-3) obtain s where
        f: "flush e ?j1 =
           Inr (?j1\<lparr>written := written ?j1 @ [annotate s row], total := total ?j1 + 1,
                  buf_rows := [], buf_q := [], buf_t := [],
                  calls := calls ?j1 @ [([query_of row], [text_of row])]\<rparr>)"
        by auto
      let ?j2 = "?j1\<lparr>written := written ?j1 @ [annotate s row], total := total ?j1 + 1,
                  buf_rows := [], buf_q := [], buf_t := [],
                  calls := calls ?j1 @ [([query_of row], [text_of row])]\<rparr>"
      have l: "loop e rest ?j2 = Inr j'"
        using Cons.prems(4) loop_flush [OF cap True full] f by simp
      have "row_out row (annotate s row)" using True rescored_annotate by (simp add: row_out_def)
      then show ?thesis using l by (intro step [of ?j2 "annotate s row"]) simp_all
    qed
  qed
qed

lemma main_in_order:
  assumes "engine_ok e" and "batch_size e \<le> 1" and "main e fieldnames rows = Inr j"
  shows "\<exists>n\<le>length rows. list_all2 row_out (take n rows) (written j)"
proof -
  from assms(3) obtain j1 where l: "loop e rows job0 = Inr j1" and f: "flush e j1 = Inr j"
    by (auto simp: main_def split: option.splits if_splits sum.splits)
  have "buf_rows job0 = []" "buf_q job0 = []" "buf_t job0 = []" "written job0 = []"
    by (simp_all add: job0_def)
  with loop_in_order [OF assms(1,2) _ _ _ l] obtain n where
    n: "n \<le> length rows" "list_all2 row_out (take n rows) (written j1)" "buf_rows j1 = []"
    by auto
  from f n(3) have "j = j1" by (simp add: flush_empty)
  with n show ?thesis by blast
qed

section \<open>Runs on concrete inputs\<close>

lemma engine_ok_ex: "engine_ok (ex_env b m)"
  by (simp add: engine_ok_def ex_env_def ex_score_pairs)

lemma ex_row_get:
  "row_get ''gameName'' (ex_row g c r) = g"
  "row_get ''candidateTitle'' (ex_row g c r) = c"
  "row_get ''reasons'' (ex_row g c r) = r"
  by (simp_all add: row_get_def ex_row_def)

lemma ex_row_annotate: "annotate s (ex_row g c r) = ex_row g c (spec_rewrite s r)"
  by (simp add: annotate_spec ex_row_get) (simp add: ex_row_def row_set_def)

lemma fmt3_half: "fmt3 (1 / 2) = ''0.500''"
  by (simp add: fmt3_def round_half_even_def str_nat.simps digit_char_def)

lemma fmt3_chess: "fmt3 (812 / 1000) = ''0.812''"
  by (simp add: fmt3_def round_half_even_def str_nat.simps digit_char_def)

lemma fmt3_again: "fmt3 (9 / 10) = ''0.900''"
  by (simp add: fmt3_def round_half_even_def str_nat.simps digit_char_def)

lemma strip_examples:
  "strip ''Chess'' = ''Chess''" "strip ''Chess Online'' = ''Chess Online''"
  "strip ''Checkers'' = ''Checkers''" "strip '' '' = []" "strip [] = []"
  "strip ''title match'' = ''title match''"
  by (simp_all add: strip_def lstrip_def rstrip_def isspace_def)

lemma rewrite_examples:
  "spec_rewrite (812 / 1000) ''title match'' = ''title match|reranker score 0.812''"
  "spec_rewrite (9 / 10) ''title match|reranker score 0.812'' = ''title match|reranker score 0.900''"
  "spec_rewrite (1 / 2) ''title match'' = ''title match|reranker score 0.500''"
  by (simp_all add: spec_rewrite_def clauses_def score_clause_def is_score_clause_def
      fmt3_def round_half_even_def str_nat.simps digit_char_def
      strip_def lstrip_def rstrip_def isspace_def)

lemma ex_rows_scorable: "scorable ex_chess" "scorable ex_go" "\<not> scorable ex_blank"
  by (simp_all add: scorable_def ex_chess_def ex_go_def ex_blank_def ex_row_get
      strip_def lstrip_def rstrip_def isspace_def)

lemma ex_rows_query:
  "query_of ex_chess = ''Chess''" "text_of ex_chess = ''Chess Online''"
  "query_of ex_go = ''Go''" "text_of ex_go = ''Go Master''"
  by (simp_all add: query_of_def text_of_def ex_chess_def ex_go_def ex_row_get
      strip_def lstrip_def rstrip_def isspace_def)

lemma ex_rows_annotate:
  "annotate (1 / 2) ex_chess = ex_row ''Chess'' ''Chess Online'' ''title match|reranker score 0.500''"
  "annotate (1 / 2) ex_go = ex_row ''Go'' ''Go Master'' ''reranker score 0.500''"
  by (simp_all add: ex_chess_def ex_go_def ex_row_annotate)
     (simp_all add: spec_rewrite_def clauses_def score_clause_def is_score_clause_def
      fmt3_def round_half_even_def str_nat.simps digit_char_def
      strip_def lstrip_def rstrip_def isspace_def)

lemma ex_flush:
  assumes "buf_rows j \<noteq> []" and "length (buf_q j) = length (buf_t j)"
  shows "flush (ex_env b m) j =
         Inr (j\<lparr>written := written j @ map (\<lambda>(row, s). annotate s row) (zip (buf_rows j) (map (\<lambda>_. 1 / 2) (buf_q j))),
                total := total j + int (length (zip (buf_rows j) (map (\<lambda>_. 1 / 2 :: real) (buf_q j)))),
                buf_rows := [], buf_q := [], buf_t := [],
                calls := calls j @ [(buf_q j, buf_t j)]\<rparr>)"
  by (rule flush_scores [OF assms(1)]) (simp add: ex_env_def ex_score_pairs assms(2))

lemma ex_env_sel: "batch_size (ex_env b m) = b" "max_rows (ex_env b m) = m"
  by (simp_all add: ex_env_def)

lemma ex_run_reordered:
  "main (ex_env 2 0) (Some ex_header) [ex_chess, ex_blank] =
     Inr \<lparr>written = [ex_blank, ex_row ''Chess'' ''Chess Online'' ''title match|reranker score 0.500''],
          buf_rows = [], buf_q = [], buf_t = [], total = 2,
          calls = [([''Chess''], [''Chess Online''])]\<rparr>"
proof -
  let ?e = "ex_env 2 0"
  let ?j1 = "job0\<lparr>buf_rows := [ex_chess], buf_q := [''Chess''], buf_t := [''Chess Online'']\<rparr>"
  let ?j2 = "?j1\<lparr>written := [ex_blank], total := 1\<rparr>"
  have "loop ?e [ex_chess, ex_blank] job0 = loop ?e [ex_blank] ?j1"
    using loop_push [of ?e job0 ex_chess "[ex_blank]"]
    by (simp add: ex_env_sel ex_rows_scorable ex_rows_query job0_def del: loop.simps)
  also have "\<dots> = loop ?e [] ?j2"
    using loop_pass [of ?e ?j1 ex_blank "[]"]
    by (simp add: ex_env_sel ex_rows_scorable job0_def del: loop.simps)
  finally have l: "loop ?e [ex_chess, ex_blank] job0 = Inr ?j2" by simp
  have f: "flush ?e ?j2 = Inr \<lparr>written = [ex_blank, ex_row ''Chess'' ''Chess Online'' ''title match|reranker score 0.500''],
          buf_rows = [], buf_q = [], buf_t = [], total = 2,
          calls = [([''Chess''], [''Chess Online''])]\<rparr>"
    by (subst ex_flush) (simp_all add: job0_def ex_rows_annotate)
  show ?thesis using l f by (simp add: main_def ex_header_def del: loop.simps)
qed


section \<open>Further facts about runs\<close>

lemma sigmoid_ln: "0 < a \<Longrightarrow> sigmoid (ln a) = a / (a + 1)"
  by (simp add: sigmoid_def exp_minus field_simps)

lemma ex_logit_score_pairs:
  "length qs = length ts \<Longrightarrow>
   score_pairs ex_tokenizer (ex_model_logit x) dev qs ts len = Inr (map (\<lambda>_. sigmoid x) qs)"
  by (simp add: score_pairs_def ex_tokenizer_def ex_model_logit_def normalize_one comp_def
      map_replicate_const)

lemma engine_ok_ex_logit: "engine_ok (ex_env_logit x b m)"
  by (simp add: engine_ok_def ex_env_logit_def ex_logit_score_pairs)

lemma ex_sigmoids: "sigmoid (ln (203 / 47)) = 812 / 1000" "sigmoid (ln 9) = 9 / 10"
  by (simp_all add: sigmoid_ln)

lemma rescored_same_columns:
  assumes "rescored r w" and "''reasons'' \<in> fst ` set r"
  shows "same_but_reasons r w"
proof -
  from assms(1) obtain v where w: "w = AList.update ''reasons'' (Some v) r"
    by (auto simp: rescored_def row_set_def)
  have "map fst w = map fst r" using assms(2) by (simp add: w update_keys)
  moreover have "AList.delete ''reasons'' w = AList.delete ''reasons'' r"
    by (simp add: w delete_update_same)
  ultimately show ?thesis by (simp add: same_but_reasons_def)
qed

lemma consumed_length:
  assumes "consumed e P j" and "buf_rows j = []"
  shows "length (written j) = length P"
    and "list_all2 rescored (filter scorable P) (filter scorable (written j))"
proof -
  from assms obtain D where D: "filter scorable P = D"
    "length (scores_of e j) = length D"
    "filter scorable (written j) = map (\<lambda>(r, s). annotate s r) (zip D (scores_of e j))"
    and ns: "filter (\<lambda>r. \<not> scorable r) (written j) = filter (\<lambda>r. \<not> scorable r) P"
    unfolding consumed_def by auto
  have "length (filter scorable (written j)) = length (filter scorable P)"
    using D by simp
  moreover have "length (filter (\<lambda>r. \<not> scorable r) (written j)) = length (filter (\<lambda>r. \<not> scorable r) P)"
    using ns by simp
  ultimately show "length (written j) = length P"
    using sum_length_filter_compl [of scorable "written j"] sum_length_filter_compl [of scorable P]
    by simp
  have "list_all2 rescored D (map (\<lambda>(r, s). annotate s r) (zip D (scores_of e j)))"
    using D(2) by (auto simp: list_all2_conv_all_nth rescored_annotate)
  then show "list_all2 rescored (filter scorable P) (filter scorable (written j))"
    using D(1,3) by simp
qed

lemma consumed_calls_nonblank:
  assumes "consumed e P j"
  shows "\<forall>c \<in> set (calls j). [] \<notin> set (fst c) \<and> [] \<notin> set (snd c)"
proof -
  from assms obtain D where D: "filter scorable P = D @ buf_rows j"
    "concat (map fst (calls j)) = map query_of D"
    "concat (map snd (calls j)) = map text_of D"
    unfolding consumed_def by blast
  have "set D \<subseteq> set (filter scorable P)" unfolding D(1) by simp
  then have sc: "\<forall>r \<in> set D. scorable r" by auto
  have "[] \<notin> set (map query_of D)" "[] \<notin> set (map text_of D)"
    using sc by (auto simp: scorable_iff)
  with D(2,3) have "[] \<notin> set (concat (map fst (calls j)))" "[] \<notin> set (concat (map snd (calls j)))"
    by simp_all
  then show ?thesis by auto
qed

lemma ex_logit_flush:
  assumes "buf_rows j \<noteq> []" and "length (buf_q j) = length (buf_t j)"
  shows "flush (ex_env_logit x b m) j =
         Inr (j\<lparr>written := written j @ map (\<lambda>(row, s). annotate s row) (zip (buf_rows j) (map (\<lambda>_. sigmoid x) (buf_q j))),
                total := total j + int (length (zip (buf_rows j) (map (\<lambda>_. sigmoid x) (buf_q j)))),
                buf_rows := [], buf_q := [], buf_t := [],
                calls := calls j @ [(buf_q j, buf_t j)]\<rparr>)"
  by (rule flush_scores [OF assms(1)]) (simp add: ex_env_logit_def ex_logit_score_pairs assms(2))

lemma ex_env_logit_sel: "batch_size (ex_env_logit x b m) = b" "max_rows (ex_env_logit x b m) = m"
  by (simp_all add: ex_env_logit_def)

lemma ex_run_single:
  assumes "scorable row"
  shows "main (ex_env_logit x 2 0) (Some ex_header) [row] =
     Inr \<lparr>written = [annotate (sigmoid x) row], buf_rows = [], buf_q = [], buf_t = [], total = 1,
          calls = [([query_of row], [text_of row])]\<rparr>"
proof -
  let ?e = "ex_env_logit x 2 0"
  let ?j1 = "job0\<lparr>buf_rows := [row], buf_q := [query_of row], buf_t := [text_of row]\<rparr>"
  have "loop ?e [row] job0 = loop ?e [] ?j1"
    using loop_push [of ?e job0 row "[]"] assms
    by (simp add: ex_env_logit_sel job0_def del: loop.simps)
  then have l: "loop ?e [row] job0 = Inr ?j1" by simp
  have f: "flush ?e ?j1 = Inr \<lparr>written = [annotate (sigmoid x) row], buf_rows = [], buf_q = [],
          buf_t = [], total = 1, calls = [([query_of row], [text_of row])]\<rparr>"
    by (subst ex_logit_flush) (simp_all add: job0_def)
  show ?thesis using l f by (simp add: main_def ex_header_def del: loop.simps)
qed

lemma ex_chess_scored: "scorable (ex_row ''Chess'' ''Chess Online'' r)"
  "query_of (ex_row ''Chess'' ''Chess Online'' r) = ''Chess''"
  "text_of (ex_row ''Chess'' ''Chess Online'' r) = ''Chess Online''"
  by (simp_all add: scorable_def query_of_def text_of_def ex_row_get strip_examples)

lemma ex_run_first:
  "main (ex_env_logit (ln (203 / 47)) 2 0) (Some ex_header) [ex_chess] =
     Inr \<lparr>written = [ex_row ''Chess'' ''Chess Online'' ''title match|reranker score 0.812''],
          buf_rows = [], buf_q = [], buf_t = [], total = 1,
          calls = [([''Chess''], [''Chess Online''])]\<rparr>"
  using ex_run_single [of ex_chess "ln (203 / 47)"] rewrite_examples(1)
  by (simp add: ex_chess_def ex_chess_scored ex_row_annotate sigmoid_ln)

lemma ex_run_second:
  "main (ex_env_logit (ln 9) 2 0) (Some ex_header)
      [ex_row ''Chess'' ''Chess Online'' ''title match|reranker score 0.812''] =
     Inr \<lparr>written = [ex_row ''Chess'' ''Chess Online'' ''title match|reranker score 0.900''],
          buf_rows = [], buf_q = [], buf_t = [], total = 1,
          calls = [([''Chess''], [''Chess Online''])]\<rparr>"
  using ex_run_single [of "ex_row ''Chess'' ''Chess Online'' ''title match|reranker score 0.812''" "ln 9"]
    rewrite_examples(2)
  by (simp add: ex_chess_scored ex_row_annotate sigmoid_ln)



lemma cut_nonempty: "cut B k rs \<noteq> []"
  by (induction rs arbitrary: k) (auto split: list.splits)

lemma pending_order_cut:
  "pending_order B buf rs =
     (case cut B (length buf) rs of
        [] \<Rightarrow> buf
      | p # ps \<Rightarrow> filter (\<lambda>r. \<not> scorable r) p @ buf @ filter scorable p @
                  concat (map piece_order ps))"
proof (induction rs arbitrary: buf)
  case Nil
  then show ?case by simp
next
  case (Cons r rs)
  show ?case
  proof (cases "scorable r")
    case False
    obtain p ps where c: "cut B (length buf) rs = p # ps"
      using cut_nonempty [of B "length buf" rs] by (cases "cut B (length buf) rs") auto
    with False Cons.IH [of buf] show ?thesis by simp
  next
    case True
    show ?thesis
    proof (cases "B \<le> int (length buf) + 1")
      case full: True
      obtain p ps where c: "cut B 0 rs = p # ps"
        using cut_nonempty [of B 0 rs] by (cases "cut B 0 rs") auto
      with Cons.IH [of "[]"] have "pending_order B [] rs = concat (map piece_order (cut B 0 rs))"
        by (simp add: piece_order_def)
      with True full show ?thesis by simp
    next
      case False
      obtain p ps where c: "cut B (Suc (length buf)) rs = p # ps"
        using cut_nonempty [of B "Suc (length buf)" rs]
        by (cases "cut B (Suc (length buf)) rs") auto
      with True False Cons.IH [of "buf @ [r]"] show ?thesis by simp
    qed
  qed
qed

lemma pending_order_expected: "pending_order B [] rs = expected_order B rs"
proof -
  obtain p ps where c: "cut B 0 rs = p # ps"
    using cut_nonempty [of B 0 rs] by (cases "cut B 0 rs") auto
  then show ?thesis
    by (simp add: pending_order_cut expected_order_def piece_order_def)
qed

lemma length_pending_order: "length (pending_order B buf rs) = length buf + length rs"
  by (induction rs arbitrary: buf) simp_all

lemma flush_rows_out:
  assumes "engine_ok e" and "buf_ok j" and "flush e j = Inr j2"
  shows "\<exists>ws. written j2 = written j @ ws \<and> list_all2 row_out (buf_rows j) ws \<and>
           buf_rows j2 = [] \<and> buf_ok j2"
proof (cases "buf_rows j = []")
  case True
  with assms(3) have "j2 = j" by (simp add: flush_empty)
  with True assms(2) show ?thesis by simp
next
  case False
  from flush_ok [OF assms(1,2) False] assms(3) obtain ss where
    len: "length ss = length (buf_rows j)"
    and j2: "j2 = j\<lparr>written := written j @ map (\<lambda>(row, s). annotate s row) (zip (buf_rows j) ss),
                  total := total j + int (length (buf_rows j)),
                  buf_rows := [], buf_q := [], buf_t := [],
                  calls := calls j @ [(buf_q j, buf_t j)]\<rparr>"
    by auto
  let ?ws = "map (\<lambda>(row, s). annotate s row) (zip (buf_rows j) ss)"
  from assms(2) have sc: "\<forall>i<length (buf_rows j). scorable (buf_rows j ! i)"
    by (simp add: buf_ok_def list_all_length)
  have "list_all2 row_out (buf_rows j) ?ws"
    using len sc by (simp add: list_all2_conv_all_nth row_out_def rescored_annotate)
  moreover have "written j2 = written j @ ?ws" by (simp add: j2)
  moreover have "buf_rows j2 = []" "buf_ok j2" by (simp_all add: j2 buf_ok_def)
  ultimately show ?thesis by blast
qed

lemma loop_flush_order:
  assumes "engine_ok e" and "buf_ok j" and "loop e rows j = Inr j1" and "flush e j1 = Inr j2"
  shows "\<exists>n\<le>length rows. \<exists>ws. written j2 = written j @ ws \<and>
           list_all2 row_out (pending_order (batch_size e) (buf_rows j) (take n rows)) ws"
  using assms(2,3)
proof (induction rows arbitrary: j)
  case Nil
  then have "j1 = j" by simp
  with flush_rows_out [OF assms(1) Nil.prems(1)] assms(4) show ?case by auto
next
  case (Cons row rest)
  show ?case
  proof (cases "max_rows e \<noteq> 0 \<and> max_rows e \<le> total j")
    case True
    with Cons.prems have "j1 = j" by simp
    with flush_rows_out [OF assms(1) Cons.prems(1)] assms(4) obtain ws where
      "written j2 = written j @ ws" "list_all2 row_out (buf_rows j) ws" by auto
    then show ?thesis by (intro exI [of _ 0]) simp
  next
    case cap: False
    show ?thesis
    proof (cases "scorable row")
      case False
      let ?j' = "j\<lparr>written := written j @ [row], total := total j + 1\<rparr>"
      have l: "loop e rest ?j' = Inr j1" using Cons.prems(2) loop_pass [OF cap False] by simp
      have b: "buf_ok ?j'" using Cons.prems(1) by (rule buf_ok_pass)
      from Cons.IH [OF b l] obtain n ws where n: "n \<le> length rest"
        "written j2 = written ?j' @ ws"
        "list_all2 row_out (pending_order (batch_size e) (buf_rows ?j') (take n rest)) ws"
        by blast
      have "written j2 = written j @ (row # ws)" using n(2) by simp
      moreover have "list_all2 row_out (pending_order (batch_size e) (buf_rows j) (take (Suc n) (row # rest)))
                       (row # ws)"
        using n(3) False by (simp add: row_out_def)
      ultimately show ?thesis using n(1) by (intro exI [of _ "Suc n"]) auto
    next
      case True
      let ?j' = "j\<lparr>buf_rows := buf_rows j @ [row], buf_q := buf_q j @ [query_of row],
                    buf_t := buf_t j @ [text_of row]\<rparr>"
      have b: "buf_ok ?j'" using Cons.prems(1) True by (rule buf_ok_push)
      show ?thesis
      proof (cases "batch_size e \<le> int (length (buf_rows j)) + 1")
        case False
        have l: "loop e rest ?j' = Inr j1" using Cons.prems(2) loop_push [OF cap True False] by simp
        from Cons.IH [OF b l] obtain n ws where n: "n \<le> length rest"
          "written j2 = written ?j' @ ws"
          "list_all2 row_out (pending_order (batch_size e) (buf_rows ?j') (take n rest)) ws"
          by blast
        have "written j2 = written j @ ws" using n(2) by simp
        moreover have "list_all2 row_out
            (pending_order (batch_size e) (buf_rows j) (take (Suc n) (row # rest))) ws"
          using n(3) True False by simp
        ultimately show ?thesis using n(1) by (intro exI [of _ "Suc n"]) auto
      next
        case full: True
        from Cons.prems(2) loop_flush [OF cap True full] obtain j'' where
          f: "flush e ?j' = Inr j''" and l: "loop e rest j'' = Inr j1"
          by (auto split: sum.splits)
        from flush_rows_out [OF assms(1) b f] obtain ws1 where ws1:
          "written j'' = written ?j' @ ws1" "list_all2 row_out (buf_rows ?j') ws1"
          "buf_rows j'' = []" "buf_ok j''"
          by blast
        from Cons.IH [OF ws1(4) l] obtain n ws where n: "n \<le> length rest"
          "written j2 = written j'' @ ws"
          "list_all2 row_out (pending_order (batch_size e) (buf_rows j'') (take n rest)) ws"
          by blast
        have "written j2 = written j @ (ws1 @ ws)" using n(2) ws1(1) by simp
        moreover have "list_all2 row_out
            (pending_order (batch_size e) (buf_rows j) (take (Suc n) (row # rest))) (ws1 @ ws)"
        proof -
          have "list_all2 row_out ((buf_rows j @ [row]) @ pending_order (batch_size e) [] (take n rest))
                  (ws1 @ ws)"
            using ws1(2) n(3) ws1(3) by (intro list_all2_appendI) simp_all
          then show ?thesis using True full by simp
        qed
        ultimately show ?thesis using n(1) by (intro exI [of _ "Suc n"]) auto
      qed
    qed
  qed
qed

lemma main_order:
  assumes "engine_ok e" and "main e fieldnames rows = Inr j"
  shows "\<exists>n\<le>length rows. list_all2 row_out (expected_order (batch_size e) (take n rows)) (written j)"
proof -
  from assms(2) obtain j1 where l: "loop e rows job0 = Inr j1" and f: "flush e j1 = Inr j"
    by (auto simp: main_def split: option.splits if_splits sum.splits)
  from loop_flush_order [OF assms(1) buf_ok_job0 l f] obtain n ws where
    "n \<le> length rows" "written j = written job0 @ ws"
    "list_all2 row_out (pending_order (batch_size e) (buf_rows job0) (take n rows)) ws"
    by blast
  then show ?thesis by (auto simp: job0_def pending_order_expected)
qed

lemma length_expected_order: "length (expected_order B rs) = length rs"
  using length_pending_order [of B "[]" rs] by (simp add: pending_order_expected)

section \<open>Claims about the score engine and the service\<close>

text \<open>
  Claim C5, as stated: logits with exactly two values per row are scored by the softmax
  probability of the second class, and logits of any other shape by the sigmoid of the
  first element of the flattened row. It fails: a tensor of shape \<open>(1, 1, 2)\<close> has two values
  per row and goes through the last branch, which gives the sigmoid of the first value;
  and a tensor without axes or with an empty first axis makes torch raise, so there is no
  score at all.
\<close>

theorem normalize_by_shape_counterexample:
  "wf_tensor ex_logits4 \<and> shape ex_logits4 = [1, 1, 2] \<and> logit_row ex_logits4 0 = [0, ln 3] \<and>
   normalize ex_logits4 = Inr [1 / 2] \<and> app_normalize ex_logits4 = Inr [1 / 2] \<and>
   softmax (logit_row ex_logits4 0) ! 1 = 3 / 4 \<and>
   normalize ex_logits4 \<noteq> Inr [softmax (logit_row ex_logits4 0) ! 1] \<and>
   wf_tensor ex_logits5 \<and> normalize ex_logits5 = Inl IndexError \<and>
   wf_tensor ex_logits6 \<and> normalize ex_logits6 = Inl RuntimeError"
proof -
  have w: "wf_tensor ex_logits4" "wf_tensor ex_logits5" "wf_tensor ex_logits6"
    by (simp_all add: wf_tensor_def ex_logits4_def ex_logits5_def ex_logits6_def)
  have s: "shape ex_logits4 = [1, 1, 2]" by (simp add: ex_logits4_def)
  have "normalize ex_logits4 = Inr (map (\<lambda>i. sigmoid (data ex_logits4 ! (i * prod_list [1, 2]))) [0..<1])"
    by (rule normalize_other) (simp_all add: ex_logits4_def)
  then have n: "normalize ex_logits4 = Inr [1 / 2]"
    by (simp add: ex_logits4_def ex_logit_values)
  then have a: "app_normalize ex_logits4 = Inr [1 / 2]" by (simp add: app_normalize_eq)
  have sm: "softmax (logit_row ex_logits4 0) ! 1 = 3 / 4"
    by (simp add: ex_logit_rows softmax_two ex_logit_values)
  have e5: "normalize ex_logits5 = Inl IndexError"
    by (rule normalize_fails(1)) (simp add: ex_logits5_def)
  have e6: "normalize ex_logits6 = Inl RuntimeError"
    by (rule normalize_fails(2) [of _ "[3]"]) (simp_all add: ex_logits6_def)
  show ?thesis using w s n a sm e5 e6 by (simp add: ex_logit_rows)
qed

text \<open>
  Claim C5, amended. On well-formed logits both scoring functions, of the service and of
  the job, do the following. Shape \<open>(b, 1)\<close>: each score is the sigmoid of the value of its
  row. Shape \<open>(b, 2)\<close>: each score is the softmax probability of the second class of its
  row. Any other shape with at least one row and at least one element per row, one axis
  and three or more axes included whatever the number of values per row: each score is
  the sigmoid of the first element of its row flattened to a vector. Otherwise no scores
  are returned: a tensor without axes raises \<open>IndexError\<close>, an empty first axis outside the
  first two cases \<open>RuntimeError\<close>, rows without elements \<open>IndexError\<close>.
\<close>

theorem normalize_by_shape:
  assumes "wf_tensor t"
  shows "(shape t = [b, 1] \<longrightarrow>
            (\<exists>ss. normalize t = Inr ss \<and> app_normalize t = Inr ss \<and> length ss = b \<and>
                  (\<forall>i<b. \<exists>v. logit_row t i = [v] \<and> ss ! i = sigmoid v))) \<and>
         (shape t = [b, 2] \<longrightarrow>
            (\<exists>ss. normalize t = Inr ss \<and> app_normalize t = Inr ss \<and> length ss = b \<and>
                  (\<forall>i<b. \<exists>x0 x1. logit_row t i = [x0, x1] \<and> ss ! i = softmax [x0, x1] ! 1 \<and>
                                   ss ! i = exp x1 / (exp x0 + exp x1)))) \<and>
         (shape t = b # rest \<and> rest \<noteq> [1] \<and> rest \<noteq> [2] \<and> 0 < b \<and> 0 < prod_list rest \<longrightarrow>
            (\<exists>ss. normalize t = Inr ss \<and> app_normalize t = Inr ss \<and> length ss = b \<and>
                  (\<forall>i<b. length (logit_row t i) = prod_list rest \<and>
                          ss ! i = sigmoid (hd (logit_row t i))))) \<and>
         (shape t = [] \<longrightarrow> normalize t = Inl IndexError \<and> app_normalize t = Inl IndexError) \<and>
         (shape t = 0 # rest \<and> rest \<noteq> [1] \<and> rest \<noteq> [2] \<longrightarrow>
            normalize t = Inl RuntimeError \<and> app_normalize t = Inl RuntimeError) \<and>
         (shape t = b # rest \<and> 0 < b \<and> prod_list rest = 0 \<longrightarrow>
            normalize t = Inl IndexError \<and> app_normalize t = Inl IndexError)"
proof (intro conjI impI)
  assume s: "shape t = [b, 1]"
  then have "shape t = b # [1]" by simp
  from normalize_dispatch [OF assms this]
  show "\<exists>ss. normalize t = Inr ss \<and> app_normalize t = Inr ss \<and> length ss = b \<and>
                  (\<forall>i<b. \<exists>v. logit_row t i = [v] \<and> ss ! i = sigmoid v)"
    by simp
next
  assume s: "shape t = [b, 2]"
  then have "shape t = b # [2]" by simp
  from normalize_dispatch [OF assms this]
  show "\<exists>ss. normalize t = Inr ss \<and> app_normalize t = Inr ss \<and> length ss = b \<and>
                  (\<forall>i<b. \<exists>x0 x1. logit_row t i = [x0, x1] \<and> ss ! i = softmax [x0, x1] ! 1 \<and>
                                   ss ! i = exp x1 / (exp x0 + exp x1))"
    by simp
next
  assume a: "shape t = b # rest \<and> rest \<noteq> [1] \<and> rest \<noteq> [2] \<and> 0 < b \<and> 0 < prod_list rest"
  then have sh: "shape t = b # rest" by simp
  from normalize_dispatch [OF assms sh] a obtain ss where
    ss: "normalize t = Inr ss" "app_normalize t = Inr ss" "length ss = b"
      "\<forall>i<b. logit_row t i \<noteq> [] \<and> ss ! i = sigmoid (hd (logit_row t i))"
    by blast
  have "\<forall>i<b. length (logit_row t i) = prod_list rest \<and> ss ! i = sigmoid (hd (logit_row t i))"
    using ss(4) logit_row_length [OF assms sh] by simp
  with ss(1-3)
  show "\<exists>ss. normalize t = Inr ss \<and> app_normalize t = Inr ss \<and> length ss = b \<and>
                  (\<forall>i<b. length (logit_row t i) = prod_list rest \<and>
                          ss ! i = sigmoid (hd (logit_row t i)))"
    by blast
next
  assume "shape t = []"
  then show "normalize t = Inl IndexError" "app_normalize t = Inl IndexError"
    by (simp_all add: normalize_fails app_normalize_fails)
next
  assume "shape t = 0 # rest \<and> rest \<noteq> [1] \<and> rest \<noteq> [2]"
  then show "normalize t = Inl RuntimeError" "app_normalize t = Inl RuntimeError"
    by (simp_all add: normalize_fails app_normalize_fails)
next
  assume "shape t = b # rest \<and> 0 < b \<and> prod_list rest = 0"
  then show "normalize t = Inl IndexError" "app_normalize t = Inl IndexError"
    by (simp_all add: normalize_fails(3) app_normalize_fails(3))
qed

theorem normalize_by_shape_witness:
  "wf_tensor ex_logits1 \<and> shape ex_logits1 = [2, 1] \<and> normalize ex_logits1 = Inr [1 / 2, 3 / 4] \<and>
   wf_tensor ex_logits2 \<and> shape ex_logits2 = [1, 2] \<and> app_normalize ex_logits2 = Inr [3 / 4] \<and>
   wf_tensor ex_logits3 \<and> shape ex_logits3 = 1 # [3] \<and> normalize ex_logits3 = Inr [3 / 4] \<and>
   wf_tensor ex_logits4 \<and> shape ex_logits4 = 1 # [1, 2] \<and> normalize ex_logits4 = Inr [1 / 2] \<and>
   wf_tensor ex_logits5 \<and> shape ex_logits5 = [] \<and> normalize ex_logits5 = Inl IndexError \<and>
   wf_tensor ex_logits6 \<and> shape ex_logits6 = 0 # [3] \<and> app_normalize ex_logits6 = Inl RuntimeError"
proof -
  have w1: "wf_tensor ex_logits1" and s1: "shape ex_logits1 = [2, 1]"
    by (simp_all add: wf_tensor_def ex_logits1_def)
  have w2: "wf_tensor ex_logits2" and s2: "shape ex_logits2 = [1, 2]"
    by (simp_all add: wf_tensor_def ex_logits2_def)
  have w3: "wf_tensor ex_logits3" and s3: "shape ex_logits3 = 1 # [3]"
    by (simp_all add: wf_tensor_def ex_logits3_def)
  have w4: "wf_tensor ex_logits4" and s4: "shape ex_logits4 = 1 # [1, 2]"
    by (simp_all add: wf_tensor_def ex_logits4_def)
  have w5: "wf_tensor ex_logits5" and s5: "shape ex_logits5 = []"
    by (simp_all add: wf_tensor_def ex_logits5_def)
  have w6: "wf_tensor ex_logits6" and s6: "shape ex_logits6 = 0 # [3]"
    by (simp_all add: wf_tensor_def ex_logits6_def)
  note r = ex_logit_rows
  have "\<exists>ss. normalize ex_logits1 = Inr ss \<and> app_normalize ex_logits1 = Inr ss \<and> length ss = 2 \<and>
          (\<forall>i<2. \<exists>v. logit_row ex_logits1 i = [v] \<and> ss ! i = sigmoid v)"
    using normalize_by_shape [OF w1, of 2 "[]", THEN conjunct1] s1 by (rule mp)
  then obtain ss1 where
    n1: "normalize ex_logits1 = Inr ss1" and l1: "length ss1 = 2"
    and v1: "\<forall>i<2. \<exists>v. logit_row ex_logits1 i = [v] \<and> ss1 ! i = sigmoid v"
    by (elim exE conjE)
  from v1 have "\<exists>v. logit_row ex_logits1 0 = [v] \<and> ss1 ! 0 = sigmoid v"
    and "\<exists>v. logit_row ex_logits1 1 = [v] \<and> ss1 ! 1 = sigmoid v" by simp_all
  with r(1,2) have "ss1 ! 0 = sigmoid 0" "ss1 ! 1 = sigmoid (ln 3)" by auto
  with l1 have e1: "ss1 = [sigmoid 0, sigmoid (ln 3)]"
    by (cases ss1; cases "tl ss1") auto
  have "\<exists>ss. normalize ex_logits2 = Inr ss \<and> app_normalize ex_logits2 = Inr ss \<and> length ss = 1 \<and>
          (\<forall>i<1. \<exists>x0 x1. logit_row ex_logits2 i = [x0, x1] \<and> ss ! i = softmax [x0, x1] ! 1 \<and>
                                   ss ! i = exp x1 / (exp x0 + exp x1))"
    using normalize_by_shape [OF w2, of 1 "[]", THEN conjunct2, THEN conjunct1] s2 by (rule mp)
  then obtain ss2 where
    n2: "app_normalize ex_logits2 = Inr ss2" and l2: "length ss2 = 1"
    and v2: "\<forall>i<1. \<exists>x0 x1. logit_row ex_logits2 i = [x0, x1] \<and> ss2 ! i = softmax [x0, x1] ! 1 \<and>
                               ss2 ! i = exp x1 / (exp x0 + exp x1)"
    by (elim exE conjE)
  from v2 have "\<exists>x0 x1. logit_row ex_logits2 0 = [x0, x1] \<and> ss2 ! 0 = softmax [x0, x1] ! 1 \<and>
      ss2 ! 0 = exp x1 / (exp x0 + exp x1)"
    by simp
  then obtain x0 x1 where x: "logit_row ex_logits2 0 = [x0, x1]" "ss2 ! 0 = exp x1 / (exp x0 + exp x1)"
    by (elim exE conjE)
  from x(1) r(3) have "x0 = 0" "x1 = ln 3" by simp_all
  with x(2) have "ss2 ! 0 = exp (ln 3) / (exp 0 + exp (ln 3))" by simp
  with l2 have e2: "ss2 = [exp (ln 3) / (exp 0 + exp (ln 3))]" by (cases ss2) auto
  have c3: "shape ex_logits3 = 1 # [3] \<and> [3] \<noteq> [1::nat] \<and> [3] \<noteq> [2::nat] \<and> (0::nat) < 1 \<and>
            0 < prod_list [3::nat]"
    using s3 by simp
  have "\<exists>ss. normalize ex_logits3 = Inr ss \<and> app_normalize ex_logits3 = Inr ss \<and> length ss = 1 \<and>
          (\<forall>i<1. length (logit_row ex_logits3 i) = prod_list [3] \<and>
                  ss ! i = sigmoid (hd (logit_row ex_logits3 i)))"
    using normalize_by_shape [OF w3, of 1 "[3]", THEN conjunct2, THEN conjunct2, THEN conjunct1] c3
    by (rule mp)
  then obtain ss3 where
    n3: "normalize ex_logits3 = Inr ss3" and l3: "length ss3 = 1"
    and v3: "\<forall>i<1. length (logit_row ex_logits3 i) = prod_list [3] \<and>
                    ss3 ! i = sigmoid (hd (logit_row ex_logits3 i))"
    by (elim exE conjE)
  from v3 have "ss3 ! 0 = sigmoid (hd (logit_row ex_logits3 0))" by simp
  with r(4) have "ss3 ! 0 = sigmoid (ln 3)" by simp
  with l3 have e3: "ss3 = [sigmoid (ln 3)]" by (cases ss3) auto
  have c4: "shape ex_logits4 = 1 # [1, 2] \<and> [1, 2] \<noteq> [1::nat] \<and> [1, 2] \<noteq> [2::nat] \<and>
            (0::nat) < 1 \<and> 0 < prod_list [1, 2::nat]"
    using s4 by simp
  have "\<exists>ss. normalize ex_logits4 = Inr ss \<and> app_normalize ex_logits4 = Inr ss \<and> length ss = 1 \<and>
          (\<forall>i<1. length (logit_row ex_logits4 i) = prod_list [1, 2] \<and>
                  ss ! i = sigmoid (hd (logit_row ex_logits4 i)))"
    using normalize_by_shape [OF w4, of 1 "[1, 2]", THEN conjunct2, THEN conjunct2, THEN conjunct1] c4
    by (rule mp)
  then obtain ss4 where
    n4: "normalize ex_logits4 = Inr ss4" and l4: "length ss4 = 1"
    and v4: "\<forall>i<1. length (logit_row ex_logits4 i) = prod_list [1, 2] \<and>
                    ss4 ! i = sigmoid (hd (logit_row ex_logits4 i))"
    by (elim exE conjE)
  from v4 have "ss4 ! 0 = sigmoid (hd (logit_row ex_logits4 0))" by simp
  with r(5) have "ss4 ! 0 = sigmoid 0" by simp
  with l4 have e4: "ss4 = [sigmoid 0]" by (cases ss4) auto
  have "normalize ex_logits5 = Inl IndexError \<and> app_normalize ex_logits5 = Inl IndexError"
    using normalize_by_shape [OF w5, of 0 "[]", THEN conjunct2, THEN conjunct2, THEN conjunct2,
        THEN conjunct1] s5
    by (rule mp)
  then have n5: "normalize ex_logits5 = Inl IndexError" by (rule conjunct1)
  have c6: "shape ex_logits6 = 0 # [3] \<and> [3] \<noteq> [1::nat] \<and> [3] \<noteq> [2::nat]" using s6 by simp
  have "normalize ex_logits6 = Inl RuntimeError \<and> app_normalize ex_logits6 = Inl RuntimeError"
    using normalize_by_shape [OF w6, of 0 "[3]", THEN conjunct2, THEN conjunct2, THEN conjunct2,
        THEN conjunct2, THEN conjunct1] c6
    by (rule mp)
  then have n6: "app_normalize ex_logits6 = Inl RuntimeError" by (rule conjunct2)
  have v: "sigmoid 0 = 1 / 2" "sigmoid (ln 3) = 3 / 4"
    "exp (ln 3) / (exp 0 + exp (ln 3)) = (3 / 4 :: real)"
    by (rule ex_logit_values)+
  show ?thesis
    unfolding n1 n2 n3 n4 n5 n6 e1 e2 e3 e4 v
    using w1 s1 w2 s2 w3 s3 w4 s4 w5 s5 w6 s6 by (intro conjI) (rule refl | assumption)+
qed



text \<open>
  Claim C10. Given the same tokenizer, model, device and maximum length, the scoring
  function of the service and the scoring function of the job return the same result, a
  list of scores or an error, on all queries and texts.
\<close>

theorem score_pairs_agree:
  "app_score_pairs \<lparr>app_tokenizer = Some tok, app_model = Some mdl, app_device = dev, MAX_LENGTH = len\<rparr>
     queries texts =
   score_pairs tok mdl dev queries texts len"
  by (simp add: app_score_pairs_def score_pairs_def app_normalize_eq split: sum.splits)

text \<open>
  Claim C9. \<open>batch_score\<close> on an empty list of pairs returns an empty list of scores and
  does not call the score engine. On a non-empty list it calls the engine exactly once, on
  all the queries and all the texts, and when the engine returns one score per pair the
  result has one entry per pair, in the order of the pairs, each with the \<open>id\<close> of its pair
  (\<open>None\<close> when the pair has none) and its score.
\<close>

theorem batch_score_contract:
  "batch_score app [] = (Inr [], []) \<and>
   (pairs \<noteq> [] \<longrightarrow> snd (batch_score app pairs) = [(map query pairs, map text_field pairs)]) \<and>
   (pairs \<noteq> [] \<and> app_score_pairs app (map query pairs) (map text_field pairs) = Inr scores \<and>
    length scores = length pairs \<longrightarrow>
      (\<exists>out. fst (batch_score app pairs) = Inr out \<and> length out = length pairs \<and>
             (\<forall>i<length pairs. out ! i = (id_field (pairs ! i), scores ! i))))"
proof (intro conjI impI)
  show "batch_score app [] = (Inr [], [])" by (simp add: batch_score_def)
next
  assume "pairs \<noteq> []"
  then show "snd (batch_score app pairs) = [(map query pairs, map text_field pairs)]"
    by (simp add: batch_score_def Let_def split: sum.splits)
next
  assume a: "pairs \<noteq> [] \<and> app_score_pairs app (map query pairs) (map text_field pairs) = Inr scores \<and>
    length scores = length pairs"
  let ?out = "map (\<lambda>(pair, s). (id_field pair, s)) (zip pairs scores)"
  from a have "fst (batch_score app pairs) = Inr ?out" by (simp add: batch_score_def Let_def)
  moreover from a have "length ?out = length pairs" by simp
  moreover from a have "\<forall>i<length pairs. ?out ! i = (id_field (pairs ! i), scores ! i)" by simp
  ultimately show "\<exists>out. fst (batch_score app pairs) = Inr out \<and> length out = length pairs \<and>
             (\<forall>i<length pairs. out ! i = (id_field (pairs ! i), scores ! i))"
    by blast
qed

theorem batch_score_contract_witness:
  "ex_pairs \<noteq> [] \<and>
   app_score_pairs ex_app (map query ex_pairs) (map text_field ex_pairs) = Inr [1 / 2, 1 / 2] \<and>
   length [1 / 2, 1 / 2 :: real] = length ex_pairs \<and>
   snd (batch_score ex_app ex_pairs) = [([''chess'', ''go''], [''Chess Online'', ''Go Master''])] \<and>
   fst (batch_score ex_app ex_pairs) = Inr [(Some ''a'', 1 / 2), (None, 1 / 2)]"
proof -
  have ne: "ex_pairs \<noteq> []" by (simp add: ex_pairs_def)
  have sc: "app_score_pairs ex_app (map query ex_pairs) (map text_field ex_pairs) = Inr [1 / 2, 1 / 2]"
  proof -
    have "app_score_pairs ex_app (map query ex_pairs) (map text_field ex_pairs) =
          score_pairs ex_tokenizer ex_model (app_device ex_app) (map query ex_pairs)
            (map text_field ex_pairs) (MAX_LENGTH ex_app)"
      by (rule app_score_pairs_loaded) (simp_all add: ex_app_def)
    also have "\<dots> = Inr (map (\<lambda>_. 1 / 2) (map query ex_pairs))"
      by (rule ex_score_pairs) simp
    finally show ?thesis by (simp add: ex_pairs_def)
  qed
  have len: "length [1 / 2, 1 / 2 :: real] = length ex_pairs" by (simp add: ex_pairs_def)
  note B = batch_score_contract [of ex_app ex_pairs "[1 / 2, 1 / 2]"]
  from B ne have c: "snd (batch_score ex_app ex_pairs) = [(map query ex_pairs, map text_field ex_pairs)]"
    by blast
  from B ne sc len obtain out where out: "fst (batch_score ex_app ex_pairs) = Inr out"
    "length out = length ex_pairs" "\<forall>i<length ex_pairs. out ! i = (id_field (ex_pairs ! i), [1 / 2, 1 / 2] ! i)"
    by blast
  from out(3) have "out ! 0 = (Some ''a'', 1 / 2)" "out ! 1 = (None, 1 / 2)"
    by (simp_all add: ex_pairs_def)
  with out(2) have "out = [(Some ''a'', 1 / 2), (None, 1 / 2)]"
    by (cases out; cases "tl out") (auto simp: ex_pairs_def)
  with out(1) c ne sc len show ?thesis by (simp add: ex_pairs_def)
qed

section \<open>Claims about the enrichment job\<close>

text \<open>
  Claim C1, as stated: the rows of the output are the rows of the input in the same order,
  with the same columns, only the annotation column differing. It fails: with batch size 2,
  a scorable row followed by a row with a blank query is written after it, since the blank
  row is written at once and the scorable row waits in the buffer for the flush.
\<close>

theorem output_order_counterexample:
  "main (ex_env 2 0) (Some ex_header) [ex_chess, ex_blank] =
     Inr \<lparr>written = [ex_blank, ex_row ''Chess'' ''Chess Online'' ''title match|reranker score 0.500''],
          buf_rows = [], buf_q = [], buf_t = [], total = 2,
          calls = [([''Chess''], [''Chess Online''])]\<rparr> \<and>
   \<not> list_all2 same_but_reasons [ex_chess, ex_blank]
        [ex_blank, ex_row ''Chess'' ''Chess Online'' ''title match|reranker score 0.500'']"
proof -
  have "\<not> same_but_reasons ex_chess ex_blank"
    by (simp add: same_but_reasons_def ex_chess_def ex_blank_def ex_row_def)
  then show ?thesis using ex_run_reordered by simp
qed

text \<open>
  Claim C1, amended. When the score engine returns one score per pair, the job writes as
  many rows as it consumed, a prefix of the input that is all of it when no cap is set, and
  the order of the output is this: the consumed rows are cut right after every scorable
  row that fills the batch; each piece is written with its rows that are not scorable
  first, unchanged and in input order, and its scorable rows after them, in input order,
  each with only its \<open>reasons\<close> column reassigned. So a row written through comes ahead
  of exactly the scorable rows of its piece that precede it in the input. In particular
  the rows written through keep their input order among themselves, the scorable rows
  keep theirs and have the same columns as in the input when the rows have the column
  \<open>reasons\<close>, and with a batch size of at most 1 the whole output is in input order.
\<close>

theorem output_order_amended:
  assumes "engine_ok e" and "main e fieldnames rows = Inr j"
  shows "\<exists>n\<le>length rows.
           (max_rows e = 0 \<longrightarrow> n = length rows) \<and>
           length (written j) = n \<and>
           list_all2 row_out (expected_order (batch_size e) (take n rows)) (written j) \<and>
           filter (\<lambda>r. \<not> scorable r) (written j) = filter (\<lambda>r. \<not> scorable r) (take n rows) \<and>
           list_all2 rescored (filter scorable (take n rows)) (filter scorable (written j)) \<and>
           ((\<forall>r \<in> set rows. ''reasons'' \<in> fst ` set r) \<longrightarrow>
              list_all2 same_but_reasons (filter scorable (take n rows)) (filter scorable (written j))) \<and>
           (batch_size e \<le> 1 \<longrightarrow> list_all2 row_out (take n rows) (written j))"
proof -
  from main_consumed [OF assms] obtain n where n: "n \<le> length rows"
    "consumed e (take n rows) j" "buf_rows j = []" "max_rows e = 0 \<longrightarrow> n = length rows"
    by blast
  from consumed_length [OF n(2,3)] n(1) have len: "length (written j) = n"
    and rs: "list_all2 rescored (filter scorable (take n rows)) (filter scorable (written j))"
    by simp_all
  from n(2) have ns: "filter (\<lambda>r. \<not> scorable r) (written j) = filter (\<lambda>r. \<not> scorable r) (take n rows)"
    by (simp add: consumed_def)
  have ex: "list_all2 row_out (expected_order (batch_size e) (take n rows)) (written j)"
  proof -
    from main_order [OF assms] obtain n' where
      n': "n' \<le> length rows"
      "list_all2 row_out (expected_order (batch_size e) (take n' rows)) (written j)" by blast
    from n'(2) have "length (expected_order (batch_size e) (take n' rows)) = length (written j)"
      by (rule list_all2_lengthD)
    with n'(1) len have "n' = n" by (simp add: length_expected_order)
    with n'(2) show ?thesis by simp
  qed
  have cols: "list_all2 same_but_reasons (filter scorable (take n rows)) (filter scorable (written j))"
    if k: "\<forall>r \<in> set rows. ''reasons'' \<in> fst ` set r"
  proof -
    let ?xs = "filter scorable (take n rows)" and ?ys = "filter scorable (written j)"
    from rs have l: "length ?xs = length ?ys" and a: "\<forall>i<length ?xs. rescored (?xs ! i) (?ys ! i)"
      by (simp_all add: list_all2_conv_all_nth)
    have "same_but_reasons (?xs ! i) (?ys ! i)" if i: "i < length ?xs" for i
    proof -
      from i have "?xs ! i \<in> set ?xs" by (rule nth_mem)
      then have "?xs ! i \<in> set rows" by (auto dest: in_set_takeD)
      with k have "''reasons'' \<in> fst ` set (?xs ! i)" by blast
      with a i show ?thesis by (intro rescored_same_columns) auto
    qed
    with l show ?thesis by (simp add: list_all2_conv_all_nth)
  qed
  have ord: "list_all2 row_out (take n rows) (written j)" if b: "batch_size e \<le> 1"
  proof -
    from main_in_order [OF assms(1) b assms(2)] obtain n' where
      n': "n' \<le> length rows" "list_all2 row_out (take n' rows) (written j)" by blast
    from n'(2) have "length (take n' rows) = length (written j)" by (rule list_all2_lengthD)
    with n'(1) len have "n' = n" by simp
    with n'(2) show ?thesis by simp
  qed
  from n(1,4) len ex ns rs cols ord show ?thesis by blast
qed

theorem output_order_amended_witness:
  "engine_ok (ex_env 2 0) \<and>
   main (ex_env 2 0) (Some ex_header) [ex_chess, ex_blank] =
     Inr \<lparr>written = [ex_blank, ex_row ''Chess'' ''Chess Online'' ''title match|reranker score 0.500''],
          buf_rows = [], buf_q = [], buf_t = [], total = 2,
          calls = [([''Chess''], [''Chess Online''])]\<rparr> \<and>
   expected_order 2 [ex_chess, ex_blank] = [ex_blank, ex_chess] \<and>
   list_all2 row_out [ex_blank, ex_chess]
     [ex_blank, ex_row ''Chess'' ''Chess Online'' ''title match|reranker score 0.500''] \<and>
   filter (\<lambda>r. \<not> scorable r)
     [ex_blank, ex_row ''Chess'' ''Chess Online'' ''title match|reranker score 0.500''] = [ex_blank] \<and>
   list_all2 rescored [ex_chess]
     (filter scorable [ex_blank, ex_row ''Chess'' ''Chess Online'' ''title match|reranker score 0.500''])"
proof -
  let ?j = "\<lparr>written = [ex_blank, ex_row ''Chess'' ''Chess Online'' ''title match|reranker score 0.500''],
          buf_rows = [], buf_q = [], buf_t = [], total = 2,
          calls = [([''Chess''], [''Chess Online''])]\<rparr>"
  have ok: "engine_ok (ex_env 2 0)" by (rule engine_ok_ex)
  have run: "main (ex_env 2 0) (Some ex_header) [ex_chess, ex_blank] = Inr ?j"
    by (rule ex_run_reordered)
  have eo: "expected_order 2 [ex_chess, ex_blank] = [ex_blank, ex_chess]"
    by (simp add: expected_order_def piece_order_def ex_rows_scorable)
  from output_order_amended [OF ok run] obtain n where
    n: "n \<le> length [ex_chess, ex_blank]" "max_rows (ex_env 2 0) = 0 \<longrightarrow> n = length [ex_chess, ex_blank]"
    "list_all2 row_out (expected_order (batch_size (ex_env 2 0)) (take n [ex_chess, ex_blank])) (written ?j)"
    "filter (\<lambda>r. \<not> scorable r) (written ?j) = filter (\<lambda>r. \<not> scorable r) (take n [ex_chess, ex_blank])"
    "list_all2 rescored (filter scorable (take n [ex_chess, ex_blank])) (filter scorable (written ?j))"
    by blast
  from n(2) have n2: "n = 2" by (simp add: ex_env_sel)
  from n(3) have "list_all2 row_out [ex_blank, ex_chess] (written ?j)"
    unfolding n2 by (simp only: ex_env_sel take_all length_Cons list.size order_refl eo
        One_nat_def numeral_2_eq_2)
  with n(4,5) n2 ok run eo show ?thesis by (simp add: ex_rows_scorable)
qed

text \<open>
  Claim C3. Run the job on the output of a first run. For every scorable row that the
  second run writes, the clauses of its \<open>reasons\<close> that match the score pattern are exactly
  one, the clause of the score that the engine returned for this row in the second run:
  the \<open>k\<close>-th scorable row of the output carries the \<open>k\<close>-th score returned, and the \<open>k\<close>-th
  query and text passed to the engine are its own.
\<close>

theorem rerun_one_score_clause:
  assumes "main e1 fieldnames rows = Inr j1" and "engine_ok e2"
    and "main e2 fieldnames (written j1) = Inr j2"
  shows "length (scores_of e2 j2) = length (filter scorable (written j2)) \<and>
         (\<forall>k<length (filter scorable (written j2)).
            score_clauses (row_get ''reasons'' (filter scorable (written j2) ! k)) =
              [score_clause (scores_of e2 j2 ! k)] \<and>
            concat (map fst (calls j2)) ! k = query_of (filter scorable (written j2) ! k) \<and>
            concat (map snd (calls j2)) ! k = text_of (filter scorable (written j2) ! k))"
proof -
  from main_consumed [OF assms(2,3)] obtain n where
    c: "consumed e2 (take n (written j1)) j2" and b: "buf_rows j2 = []" by blast
  let ?S = "filter scorable (written j2)" and ?sc = "scores_of e2 j2"
  from c b obtain D where D: "length ?sc = length D"
    "?S = map (\<lambda>(r, s). annotate s r) (zip D ?sc)"
    "concat (map fst (calls j2)) = map query_of D"
    "concat (map snd (calls j2)) = map text_of D"
    unfolding consumed_def by auto
  from D(1,2) have len: "length ?S = length D" by simp
  have "score_clauses (row_get ''reasons'' (?S ! k)) = [score_clause (?sc ! k)] \<and>
        concat (map fst (calls j2)) ! k = query_of (?S ! k) \<and>
        concat (map snd (calls j2)) ! k = text_of (?S ! k)" if k: "k < length ?S" for k
  proof -
    from k len D(1) have "?S ! k = annotate (?sc ! k) (D ! k)"
      by (subst D(2)) simp
    moreover from k len have "concat (map fst (calls j2)) ! k = query_of (D ! k)"
      "concat (map snd (calls j2)) ! k = text_of (D ! k)"
      by (simp_all add: D(3,4))
    ultimately show ?thesis
      by (simp add: reasons_annotate score_clauses_spec_rewrite query_of_annotate text_of_annotate)
  qed
  with len D(1) show ?thesis by simp
qed

theorem rerun_one_score_clause_witness:
  "main (ex_env_logit (ln (203 / 47)) 2 0) (Some ex_header) [ex_chess] =
     Inr \<lparr>written = [ex_row ''Chess'' ''Chess Online'' ''title match|reranker score 0.812''],
          buf_rows = [], buf_q = [], buf_t = [], total = 1,
          calls = [([''Chess''], [''Chess Online''])]\<rparr> \<and>
   engine_ok (ex_env_logit (ln 9) 2 0) \<and>
   main (ex_env_logit (ln 9) 2 0) (Some ex_header)
      [ex_row ''Chess'' ''Chess Online'' ''title match|reranker score 0.812''] =
     Inr \<lparr>written = [ex_row ''Chess'' ''Chess Online'' ''title match|reranker score 0.900''],
          buf_rows = [], buf_q = [], buf_t = [], total = 1,
          calls = [([''Chess''], [''Chess Online''])]\<rparr> \<and>
   score_clauses ''title match|reranker score 0.900'' = [score_clause (9 / 10)]"
proof -
  let ?e1 = "ex_env_logit (ln (203 / 47)) 2 0" and ?e2 = "ex_env_logit (ln 9) 2 0"
  let ?j1 = "\<lparr>written = [ex_row ''Chess'' ''Chess Online'' ''title match|reranker score 0.812''],
          buf_rows = [], buf_q = [], buf_t = [], total = 1,
          calls = [([''Chess''], [''Chess Online''])]\<rparr>"
  let ?j2 = "\<lparr>written = [ex_row ''Chess'' ''Chess Online'' ''title match|reranker score 0.900''],
          buf_rows = [], buf_q = [], buf_t = [], total = 1,
          calls = [([''Chess''], [''Chess Online''])]\<rparr>"
  have r1: "main ?e1 (Some ex_header) [ex_chess] = Inr ?j1" by (rule ex_run_first)
  have ok: "engine_ok ?e2" by (rule engine_ok_ex_logit)
  have r2: "main ?e2 (Some ex_header) (written ?j1) = Inr ?j2" using ex_run_second by simp
  have sc: "scores_of ?e2 ?j2 = [9 / 10]"
    by (simp add: scores_of_def returned_def ex_env_logit_def ex_logit_score_pairs sigmoid_ln)
  have S: "filter scorable (written ?j2) = written ?j2" by (simp add: ex_chess_scored)
  from rerun_one_score_clause [OF r1 ok r2]
  have "\<forall>k<length (filter scorable (written ?j2)).
            score_clauses (row_get ''reasons'' (filter scorable (written ?j2) ! k)) =
              [score_clause (scores_of ?e2 ?j2 ! k)]"
    by blast
  then have "score_clauses (row_get ''reasons'' (filter scorable (written ?j2) ! 0)) =
              [score_clause (scores_of ?e2 ?j2 ! 0)]"
    unfolding S by simp
  then have "score_clauses ''title match|reranker score 0.900'' = [score_clause (9 / 10)]"
    unfolding S sc by (simp add: ex_row_get)
  with r1 ok ex_run_second show ?thesis by simp
qed

text \<open>
  Claim C4. A flush of a non-empty buffer for which the engine returns one score per row
  appends the buffered rows to the output, in order, the \<open>i\<close>-th with its \<open>reasons\<close> column
  set to: the old value split on \<open>|\<close>, each clause trimmed, the empty clauses and those
  starting with \<open>reranker score \<close> dropped, the clause \<open>reranker score s\<close> with the \<open>i\<close>-th score
  in three decimals appended, joined with \<open>|\<close>. The row with annotation \<open>title match\<close> and
  score 0.812 gets \<open>title match|reranker score 0.812\<close>.
\<close>

theorem flush_rewrites_annotation:
  assumes "buf_rows j \<noteq> []"
    and "score_pairs (tokenizer e) (model e) (device e) (buf_q j) (buf_t j) (max_length e) = Inr scores"
    and "length scores = length (buf_rows j)"
  shows "\<exists>j'. flush e j = Inr j' \<and>
           length (written j') = length (written j) + length (buf_rows j) \<and>
           take (length (written j)) (written j') = written j \<and>
           (\<forall>i<length (buf_rows j).
              written j' ! (length (written j) + i) =
                row_set ''reasons'' (spec_rewrite (scores ! i) (row_get ''reasons'' (buf_rows j ! i)))
                  (buf_rows j ! i) \<and>
              row_get ''reasons'' (written j' ! (length (written j) + i)) =
                join ''|'' (filter (\<lambda>p. p \<noteq> [] \<and> \<not> prefix ''reranker score '' p)
                                 (map strip (split_on CHR ''|'' (row_get ''reasons'' (buf_rows j ! i)))) @
                            [''reranker score '' @ fmt3 (scores ! i)]))"
proof -
  let ?new = "map (\<lambda>(row, s). annotate s row) (zip (buf_rows j) scores)"
  let ?j' = "j\<lparr>written := written j @ ?new,
                total := total j + int (length (zip (buf_rows j) scores)),
                buf_rows := [], buf_q := [], buf_t := [],
                calls := calls j @ [(buf_q j, buf_t j)]\<rparr>"
  have f: "flush e j = Inr ?j'" using assms(1,2) by (rule flush_scores)
  have len: "length ?new = length (buf_rows j)" using assms(3) by simp
  have nth: "written ?j' ! (length (written j) + i) = annotate (scores ! i) (buf_rows j ! i)"
    if "i < length (buf_rows j)" for i
    using that assms(3) by (simp add: nth_append)
  have "written ?j' ! (length (written j) + i) =
          row_set ''reasons'' (spec_rewrite (scores ! i) (row_get ''reasons'' (buf_rows j ! i)))
            (buf_rows j ! i) \<and>
        row_get ''reasons'' (written ?j' ! (length (written j) + i)) =
          join ''|'' (filter (\<lambda>p. p \<noteq> [] \<and> \<not> prefix ''reranker score '' p)
                           (map strip (split_on CHR ''|'' (row_get ''reasons'' (buf_rows j ! i)))) @
                      [''reranker score '' @ fmt3 (scores ! i)])"
    if i: "i < length (buf_rows j)" for i
    unfolding nth [OF i] reasons_annotate
    by (simp add: annotate_spec spec_rewrite_def clauses_def score_clause_def is_score_clause_def)
  moreover have "length (written ?j') = length (written j) + length (buf_rows j)"
    using len by simp
  moreover have "take (length (written j)) (written ?j') = written j" by simp
  ultimately show ?thesis using f by blast
qed

theorem flush_rewrites_annotation_witness:
  "buf_rows (job0\<lparr>buf_rows := [ex_chess], buf_q := [''Chess''], buf_t := [''Chess Online'']\<rparr>) \<noteq> [] \<and>
   score_pairs ex_tokenizer (ex_model_logit (ln (203 / 47))) ''cpu'' [''Chess''] [''Chess Online''] 256 =
     Inr [812 / 1000] \<and>
   row_get ''reasons'' ex_chess = ''title match'' \<and>
   row_get ''reasons''
     (written (projr (flush (ex_env_logit (ln (203 / 47)) 2 0)
        (job0\<lparr>buf_rows := [ex_chess], buf_q := [''Chess''], buf_t := [''Chess Online'']\<rparr>))) ! 0) =
     ''title match|reranker score 0.812''"
proof -
  let ?e = "ex_env_logit (ln (203 / 47)) 2 0"
  let ?j = "job0\<lparr>buf_rows := [ex_chess], buf_q := [''Chess''], buf_t := [''Chess Online'']\<rparr>"
  have h1: "buf_rows ?j \<noteq> []" by simp
  have sp: "score_pairs ex_tokenizer (ex_model_logit (ln (203 / 47))) ''cpu'' [''Chess''] [''Chess Online''] 256 =
     Inr [812 / 1000]"
    by (simp add: ex_logit_score_pairs sigmoid_ln)
  then have h2: "score_pairs (tokenizer ?e) (model ?e) (device ?e) (buf_q ?j) (buf_t ?j) (max_length ?e) =
     Inr [812 / 1000]"
    by (simp add: ex_env_logit_def)
  have h3: "length [812 / 1000 :: real] = length (buf_rows ?j)" by simp
  have r: "row_get ''reasons'' ex_chess = ''title match''" by (simp add: ex_chess_def ex_row_get)
  from flush_rewrites_annotation [OF h1 h2 h3] obtain j' where
    j': "flush ?e ?j = Inr j'"
    "\<forall>i<length (buf_rows ?j).
        written j' ! (length (written ?j) + i) =
          row_set ''reasons'' (spec_rewrite ([812 / 1000] ! i) (row_get ''reasons'' (buf_rows ?j ! i)))
            (buf_rows ?j ! i)"
    by blast
  from j'(2) have "written j' ! 0 =
      row_set ''reasons'' (spec_rewrite (812 / 1000) (row_get ''reasons'' ex_chess)) ex_chess"
    by (simp add: job0_def)
  then have "row_get ''reasons'' (written j' ! 0) = ''title match|reranker score 0.812''"
    using rewrite_examples(1) by (simp add: row_get_row_set r)
  with j'(1) h1 sp r show ?thesis by simp
qed

text \<open>
  Claim C8. A row that the loop reads (the cap is not reached) and whose \<open>gameName\<close> or
  \<open>candidateTitle\<close> is blank after trimming is appended to the output as it is and counted
  in the total; the buffers and the calls of the engine are as before, so it is neither
  buffered nor scored. Over a whole run with an engine that returns one score per pair,
  the rows of the output that are not scorable are the consumed ones, unchanged and in
  order; the total is the number of rows written; no query and no text that the engine
  receives is blank.
\<close>

theorem passthrough_row:
  "(\<not> (max_rows e \<noteq> 0 \<and> max_rows e \<le> total j) \<and>
    (strip (row_get ''gameName'' row) = [] \<or> strip (row_get ''candidateTitle'' row) = []) \<longrightarrow>
      loop e (row # rest) j = loop e rest (j\<lparr>written := written j @ [row], total := total j + 1\<rparr>)) \<and>
   (engine_ok e \<and> main e fieldnames rows = Inr jf \<longrightarrow>
      (\<exists>n\<le>length rows.
         (max_rows e = 0 \<longrightarrow> n = length rows) \<and>
         filter (\<lambda>r. \<not> scorable r) (written jf) = filter (\<lambda>r. \<not> scorable r) (take n rows) \<and>
         total jf = int (length (written jf)) \<and>
         (\<forall>c \<in> set (calls jf). [] \<notin> set (fst c) \<and> [] \<notin> set (snd c))))"
proof (intro conjI impI)
  assume a: "\<not> (max_rows e \<noteq> 0 \<and> max_rows e \<le> total j) \<and>
    (strip (row_get ''gameName'' row) = [] \<or> strip (row_get ''candidateTitle'' row) = [])"
  then have "\<not> scorable row" by (auto simp: scorable_def)
  with a show "loop e (row # rest) j = loop e rest (j\<lparr>written := written j @ [row], total := total j + 1\<rparr>)"
    by (intro loop_pass) simp_all
next
  assume a: "engine_ok e \<and> main e fieldnames rows = Inr jf"
  then obtain n where n: "n \<le> length rows"
    "consumed e (take n rows) jf" "max_rows e = 0 \<longrightarrow> n = length rows"
    using main_consumed [of e fieldnames rows jf] by blast
  from n(2) have "filter (\<lambda>r. \<not> scorable r) (written jf) = filter (\<lambda>r. \<not> scorable r) (take n rows)"
    and "total jf = int (length (written jf))"
    by (simp_all add: consumed_def)
  with n(1,3) consumed_calls_nonblank [OF n(2)]
  show "\<exists>n\<le>length rows.
         (max_rows e = 0 \<longrightarrow> n = length rows) \<and>
         filter (\<lambda>r. \<not> scorable r) (written jf) = filter (\<lambda>r. \<not> scorable r) (take n rows) \<and>
         total jf = int (length (written jf)) \<and>
         (\<forall>c \<in> set (calls jf). [] \<notin> set (fst c) \<and> [] \<notin> set (snd c))"
    by blast
qed

theorem passthrough_row_witness:
  "\<not> (max_rows (ex_env 2 0) \<noteq> 0 \<and> max_rows (ex_env 2 0) \<le> total job0) \<and>
   strip (row_get ''gameName'' ex_blank) = [] \<and>
   loop (ex_env 2 0) [ex_blank] job0 =
     Inr \<lparr>written = [ex_blank], buf_rows = [], buf_q = [], buf_t = [], total = 1, calls = []\<rparr> \<and>
   engine_ok (ex_env 2 0) \<and>
   main (ex_env 2 0) (Some ex_header) [ex_chess, ex_blank] =
     Inr \<lparr>written = [ex_blank, ex_row ''Chess'' ''Chess Online'' ''title match|reranker score 0.500''],
          buf_rows = [], buf_q = [], buf_t = [], total = 2,
          calls = [([''Chess''], [''Chess Online''])]\<rparr> \<and>
   filter (\<lambda>r. \<not> scorable r)
     [ex_blank, ex_row ''Chess'' ''Chess Online'' ''title match|reranker score 0.500''] = [ex_blank]"
proof -
  let ?e = "ex_env 2 0"
  let ?jf = "\<lparr>written = [ex_blank, ex_row ''Chess'' ''Chess Online'' ''title match|reranker score 0.500''],
          buf_rows = [], buf_q = [], buf_t = [], total = 2,
          calls = [([''Chess''], [''Chess Online''])]\<rparr>"
  note P = passthrough_row [of ?e job0 ex_blank "[]" "Some ex_header" "[ex_chess, ex_blank]" ?jf]
  have cap: "\<not> (max_rows ?e \<noteq> 0 \<and> max_rows ?e \<le> total job0)" by (simp add: ex_env_sel)
  have blank: "strip (row_get ''gameName'' ex_blank) = []"
    by (simp add: ex_blank_def ex_row_get strip_examples)
  from P cap blank have "loop ?e [ex_blank] job0 = loop ?e [] (job0\<lparr>written := written job0 @ [ex_blank], total := total job0 + 1\<rparr>)"
    by blast
  then have l: "loop ?e [ex_blank] job0 =
     Inr \<lparr>written = [ex_blank], buf_rows = [], buf_q = [], buf_t = [], total = 1, calls = []\<rparr>"
    by (simp add: job0_def del: loop.simps(2))
  have ok: "engine_ok ?e" by (rule engine_ok_ex)
  have run: "main ?e (Some ex_header) [ex_chess, ex_blank] = Inr ?jf" by (rule ex_run_reordered)
  from P ok run obtain n where n: "max_rows ?e = 0 \<longrightarrow> n = length [ex_chess, ex_blank]"
    "filter (\<lambda>r. \<not> scorable r) (written ?jf) = filter (\<lambda>r. \<not> scorable r) (take n [ex_chess, ex_blank])"
    by blast
  from n(1) have "n = 2" by (simp add: ex_env_sel)
  with n(2) have "filter (\<lambda>r. \<not> scorable r) (written ?jf) = [ex_blank]"
    by (simp add: ex_rows_scorable)
  with cap blank l ok run show ?thesis by simp
qed



text \<open>
  Claim C2 says that with \<open>--max-rows N\<close> at most \<open>N\<close> rows are written, whatever the batch
  size. The loop compares the cap with \<open>total\<close>, which counts the rows written and not the
  rows waiting in the buffer: with a cap of 1 and batch size 2, two scorable rows are both
  buffered, scored and written.
\<close>

theorem max_rows_overshoot:
  "max_rows (ex_env 2 1) = 1 \<and>
   main (ex_env 2 1) (Some ex_header) [ex_chess, ex_go] =
     Inr \<lparr>written = [ex_row ''Chess'' ''Chess Online'' ''title match|reranker score 0.500'',
                     ex_row ''Go'' ''Go Master'' ''reranker score 0.500''],
          buf_rows = [], buf_q = [], buf_t = [], total = 2,
          calls = [([''Chess'', ''Go''], [''Chess Online'', ''Go Master''])]\<rparr>"
proof -
  let ?e = "ex_env 2 1"
  let ?j1 = "job0\<lparr>buf_rows := buf_rows job0 @ [ex_chess], buf_q := buf_q job0 @ [query_of ex_chess],
                  buf_t := buf_t job0 @ [text_of ex_chess]\<rparr>"
  let ?j2 = "?j1\<lparr>buf_rows := buf_rows ?j1 @ [ex_go], buf_q := buf_q ?j1 @ [query_of ex_go],
                  buf_t := buf_t ?j1 @ [text_of ex_go]\<rparr>"
  let ?j3 = "\<lparr>written = [ex_row ''Chess'' ''Chess Online'' ''title match|reranker score 0.500'',
                     ex_row ''Go'' ''Go Master'' ''reranker score 0.500''],
          buf_rows = [], buf_q = [], buf_t = [], total = 2,
          calls = [([''Chess'', ''Go''], [''Chess Online'', ''Go Master''])]\<rparr>"
  have c0: "\<not> (max_rows ?e \<noteq> 0 \<and> max_rows ?e \<le> total job0)" by (simp add: ex_env_sel job0_def)
  have c1: "\<not> (max_rows ?e \<noteq> 0 \<and> max_rows ?e \<le> total ?j1)" by (simp add: ex_env_sel job0_def)
  have "\<not> batch_size ?e \<le> int (length (buf_rows job0)) + 1" by (simp add: ex_env_sel job0_def)
  from loop_push [OF c0 ex_rows_scorable(1) this]
  have 1: "loop ?e [ex_chess, ex_go] job0 = loop ?e [ex_go] ?j1" .
  have "batch_size ?e \<le> int (length (buf_rows ?j1)) + 1" by (simp add: ex_env_sel job0_def)
  from loop_flush [OF c1 ex_rows_scorable(2) this]
  have 2: "loop ?e [ex_go] ?j1 = (case flush ?e ?j2 of Inl err \<Rightarrow> Inl err | Inr j'' \<Rightarrow> loop ?e [] j'')" .
  have "flush ?e ?j2 = Inr (?j2\<lparr>written := written ?j2 @ map (\<lambda>(row, s). annotate s row) (zip (buf_rows ?j2) (map (\<lambda>_. 1 / 2) (buf_q ?j2))),
                total := total ?j2 + int (length (zip (buf_rows ?j2) (map (\<lambda>_. 1 / 2 :: real) (buf_q ?j2)))),
                buf_rows := [], buf_q := [], buf_t := [],
                calls := calls ?j2 @ [(buf_q ?j2, buf_t ?j2)]\<rparr>)"
    by (rule ex_flush) (simp_all add: job0_def)
  also have "\<dots> = Inr ?j3" by (simp add: job0_def ex_rows_annotate ex_rows_query)
  finally have f: "flush ?e ?j2 = Inr ?j3" .
  have l: "loop ?e [ex_chess, ex_go] job0 = Inr ?j3" unfolding 1 2 f by simp
  have "flush ?e ?j3 = Inr ?j3" by (simp add: flush_empty)
  then have "main ?e (Some ex_header) [ex_chess, ex_go] = Inr ?j3"
    unfolding main_def by (simp add: l ex_header_def del: loop.simps)
  then show ?thesis by (simp add: ex_env_sel)
qed

end
